theory Spec2Isabelle
  imports Main "HOL-Library.Word"
begin


section \<open>Resumable chunked upload: the coordinator of server.js and main.go\<close>

text \<open>
  The repository holds two parallel implementations of one upload server: the Express
  handlers of \<^verbatim>\<open>server.js\<close> and their Go port in \<^verbatim>\<open>main.go\<close>.
  Both keep the sessions in one process-wide map (\<^verbatim>\<open>multipartUploads\<close>) and the
  bytes in one MinIO bucket. Each handler is embedded as a function from the request and
  the state before the call to the reply and the state after it. The handlers are run one
  after the other: the interleaving of concurrent requests is not part of the model.
\<close>

subsection \<open>Integers in decimal\<close>

text \<open>
  Go's \<^verbatim>\<open>%d\<close> prints an integer in decimal, with a leading minus sign when it is
  negative; so does JavaScript for an integer of the safe range.
\<close>

definition digit_char :: "nat \<Rightarrow> char" where
  "digit_char d = ''0123456789'' ! d"

fun show_nat :: "nat \<Rightarrow> string" where
  "show_nat n = (if n < 10 then [digit_char n] else show_nat (n div 10) @ [digit_char (n mod 10)])"

declare show_nat.simps [simp del]

definition show_int :: "int \<Rightarrow> string" where
  "show_int i = (if i < 0 then CHR ''-'' # show_nat (nat (- i)) else show_nat (nat i))"

definition is_digit :: "char \<Rightarrow> bool" where
  "is_digit c = (c \<in> set ''0123456789'')"

definition digit_val :: "char \<Rightarrow> nat" where
  "digit_val c = of_char c - 48"

definition digits_val :: "string \<Rightarrow> nat" where
  "digits_val cs = foldl (\<lambda>acc c. 10 * acc + digit_val c) 0 cs"

subsection \<open>JavaScript values\<close>

text \<open>
  The numbers that server.js computes with are doubles. A session's \<^verbatim>\<open>totalChunks\<close>
  (\<^verbatim>\<open>Math.ceil\<close> of a quotient) and a chunk index (\<^verbatim>\<open>parseInt\<close> of a form field) are
  integer-valued doubles, \<^verbatim>\<open>Infinity\<close>, \<^verbatim>\<open>-Infinity\<close> or \<^verbatim>\<open>NaN\<close>: the type \<open>jsnum\<close>
  (\<open>Num 0\<close> stands for both zeros, which the code never tells apart).
\<close>

datatype jsnum = Num int | PInf | NInf | NaN

text \<open>
  A field of a request body, as \<^verbatim>\<open>express.json\<close> or \<^verbatim>\<open>express.urlencoded\<close> hands it to
  the handler: missing, \<^verbatim>\<open>null\<close>, a boolean, a number (\<open>JNum\<close> when it is integer-valued or
  infinite, as \<^verbatim>\<open>1e400\<close> is after parsing; \<open>JFrac m k\<close> for the other finite doubles,
  \<open>m / 2 ^ k\<close>), a string, or an array or object (given by its JSON text).
\<close>

datatype jsval =
  JUndefined
| JNull
| JBool bool
| JNum jsnum
| JFrac int nat
| JStr string
| JComposite string

text \<open>What \<^verbatim>\<open>!v\<close> negates: \<^verbatim>\<open>undefined\<close>, \<^verbatim>\<open>null\<close>, \<^verbatim>\<open>false\<close>, zero, \<^verbatim>\<open>NaN\<close> and the
  empty string are falsy, everything else is truthy (the string \<^verbatim>\<open>"0"\<close> too).\<close>

fun js_truthy :: "jsval \<Rightarrow> bool" where
  "js_truthy JUndefined = False"
| "js_truthy JNull = False"
| "js_truthy (JBool b) = b"
| "js_truthy (JNum (Num i)) = (i \<noteq> 0)"
| "js_truthy (JNum NaN) = False"
| "js_truthy (JNum PInf) = True"
| "js_truthy (JNum NInf) = True"
| "js_truthy (JFrac m k) = (m \<noteq> 0)"
| "js_truthy (JStr s) = (s \<noteq> [])"
| "js_truthy (JComposite t) = True"

text \<open>
  Integers below \<open>2 ^ 53\<close> in absolute value are doubles, are printed digit for digit
  and are divided with a quotient whose \<^verbatim>\<open>Math.ceil\<close> is the exact one. Whatever
  server.js computes beyond them (printing a larger number, which rounds its digits and
  switches to the form \<^verbatim>\<open>1e+21\<close>; coercing other strings, fractions, arrays and objects
  to a number or a string; rounding a quotient) is the work of the JavaScript engine and
  is taken as a parameter: the theorems hold for every engine.
\<close>

definition js_safe :: "int \<Rightarrow> bool" where
  "js_safe i = (\<bar>i\<bar> < 2 ^ 53)"

record js_engine =
  number_to_string :: "int \<Rightarrow> string"
  to_string :: "jsval \<Rightarrow> string"
  parse_int :: "jsval \<Rightarrow> jsnum"
  ceil_quotient :: "jsval \<Rightarrow> jsval \<Rightarrow> jsnum"

text \<open>A number in a template literal (\<^verbatim>\<open>`${i}`\<close>).\<close>

definition js_show :: "js_engine \<Rightarrow> jsnum \<Rightarrow> string" where
  "js_show eng n =
     (case n of
        Num i \<Rightarrow> if js_safe i then show_int i else number_to_string eng i
      | PInf \<Rightarrow> ''Infinity''
      | NInf \<Rightarrow> ''-Infinity''
      | NaN \<Rightarrow> ''NaN'')"

text \<open>A body field in a template literal (\<^verbatim>\<open>`${fileName}`\<close>).\<close>

definition js_template :: "js_engine \<Rightarrow> jsval \<Rightarrow> string" where
  "js_template eng v =
     (case v of
        JStr s \<Rightarrow> s
      | JNum n \<Rightarrow> js_show eng n
      | JBool b \<Rightarrow> (if b then ''true'' else ''false'')
      | JNull \<Rightarrow> ''null''
      | JUndefined \<Rightarrow> ''undefined''
      | _ \<Rightarrow> to_string eng v)"

text \<open>A string of one to fifteen decimal digits, the form a size has as a form field.\<close>

definition digit_string :: "string \<Rightarrow> bool" where
  "digit_string s = (s \<noteq> [] \<and> length s \<le> 15 \<and> list_all is_digit s)"

text \<open>The number a body field is coerced to in arithmetic, where the model computes it.\<close>

definition js_to_number :: "jsval \<Rightarrow> jsnum option" where
  "js_to_number v =
     (case v of
        JNum n \<Rightarrow> Some n
      | JStr s \<Rightarrow> (if digit_string s then Some (Num (int (digits_val s))) else None)
      | JBool b \<Rightarrow> Some (Num (if b then 1 else 0))
      | JNull \<Rightarrow> Some (Num 0)
      | JUndefined \<Rightarrow> Some NaN
      | _ \<Rightarrow> None)"

text \<open>
  \<^verbatim>\<open>Math.ceil(x / y)\<close> on two numbers, where it is exact: safe integers (a zero divisor
  gives an infinity or \<^verbatim>\<open>NaN\<close>; the zero divisors that reach the division are the
  positive zero of the string \<^verbatim>\<open>"0"\<close>), infinities and \<^verbatim>\<open>NaN\<close>.
\<close>

fun js_quot_ceil :: "jsnum \<Rightarrow> jsnum \<Rightarrow> jsnum option" where
  "js_quot_ceil (Num a) (Num b) =
     (if js_safe a \<and> js_safe b
      then Some (if b \<noteq> 0 then Num (- ((- a) div b))
                 else if 0 < a then PInf else if a < 0 then NInf else NaN)
      else None)"
| "js_quot_ceil NaN y = Some NaN"
| "js_quot_ceil x NaN = Some NaN"
| "js_quot_ceil PInf (Num b) = Some (if 0 \<le> b then PInf else NInf)"
| "js_quot_ceil NInf (Num b) = Some (if 0 \<le> b then NInf else PInf)"
| "js_quot_ceil (Num a) PInf = Some (Num 0)"
| "js_quot_ceil (Num a) NInf = Some (Num 0)"
| "js_quot_ceil PInf PInf = Some NaN"
| "js_quot_ceil PInf NInf = Some NaN"
| "js_quot_ceil NInf PInf = Some NaN"
| "js_quot_ceil NInf NInf = Some NaN"

text \<open>\<^verbatim>\<open>Math.ceil(fileSize / chunkSize)\<close> on the raw body fields.\<close>

definition js_ceil_quot :: "js_engine \<Rightarrow> jsval \<Rightarrow> jsval \<Rightarrow> jsnum" where
  "js_ceil_quot eng a b =
     (case (js_to_number a, js_to_number b) of
        (Some x, Some y) \<Rightarrow>
          (case js_quot_ceil x y of Some r \<Rightarrow> r | None \<Rightarrow> ceil_quotient eng a b)
      | _ \<Rightarrow> ceil_quotient eng a b)"

text \<open>\<^verbatim>\<open>parseInt(v)\<close> on a raw body field.\<close>

definition js_parseInt :: "js_engine \<Rightarrow> jsval \<Rightarrow> jsnum" where
  "js_parseInt eng v =
     (case v of
        JNum (Num i) \<Rightarrow> if js_safe i then Num i else parse_int eng v
      | JNum n \<Rightarrow> NaN
      | JStr s \<Rightarrow> if digit_string s then Num (int (digits_val s)) else parse_int eng v
      | JBool b \<Rightarrow> NaN
      | JNull \<Rightarrow> NaN
      | JUndefined \<Rightarrow> NaN
      | _ \<Rightarrow> parse_int eng v)"

subsection \<open>Sessions, the registry and the bucket\<close>

type_synonym bytes = "8 word list"

text \<open>
  One entry of \<^verbatim>\<open>multipartUploads\<close> (\<^verbatim>\<open>MultipartUploadInfo\<close> in Go). In server.js the
  file name is the raw body field and the numbers are JavaScript numbers; in main.go the
  file name is a string and the numbers are machine integers. The JavaScript
  \<^verbatim>\<open>Set\<close> and the Go \<^verbatim>\<open>map[int]bool\<close> of uploaded indices are a set, whose
  \<^verbatim>\<open>size\<close> / \<^verbatim>\<open>len\<close> is \<open>card\<close>.
\<close>

record ('v, 'n) session =
  fileName :: 'v
  objectName :: string
  fileSize :: 'n
  chunkSize :: 'n
  totalChunks :: 'n
  uploadedChunks :: "'n set"
  createdAt :: int

record ('v, 'n) state =
  uploads :: "string \<rightharpoonup> ('v, 'n) session"
  objects :: "string \<rightharpoonup> bytes"

type_synonym js_session = "(jsval, jsnum) session"
type_synonym js_state = "(jsval, jsnum) state"
type_synonym go_session = "(string, int) session"
type_synonym go_state = "(string, int) state"

text \<open>
  The configuration read from the environment at start-up. main.go does not start on a
  \<^verbatim>\<open>MINIO_PORT\<close> that is no integer, and the MinIO client that server.js constructs at
  start-up refuses a port that is no port number: in a running server the port is an
  integer, printed in decimal.
\<close>

record config =
  endPoint :: string
  port :: int
  bucketName :: string

text \<open>
  The MinIO client is an external collaborator. Its calls on the one bucket are modelled
  as operations on the map of stored objects. Whether a call fails for a reason of the
  store's own (network, disk) is decided by the environment: the predicate \<open>faults\<close>,
  given to every handler call, says which operations fail during that call. A failed
  operation leaves the bucket as it was. Reading or copying a key that is not stored
  fails; removing a key that is not stored succeeds, as on S3.
\<close>

datatype store_op =
  Get string
| Put string
| Remove string
| Copy string string

datatype store_error = IOError | NoSuchKey

definition get_object :: "(store_op \<Rightarrow> bool) \<Rightarrow> (string \<rightharpoonup> bytes) \<Rightarrow> string \<Rightarrow> store_error + bytes" where
  "get_object faults objs k =
     (if faults (Get k) then Inl IOError
      else case objs k of None \<Rightarrow> Inl NoSuchKey | Some b \<Rightarrow> Inr b)"

definition put_object :: "(store_op \<Rightarrow> bool) \<Rightarrow> (string \<rightharpoonup> bytes) \<Rightarrow> string \<Rightarrow> bytes \<Rightarrow> store_error + (string \<rightharpoonup> bytes)" where
  "put_object faults objs k b =
     (if faults (Put k) then Inl IOError else Inr (objs(k \<mapsto> b)))"

definition remove_object :: "(store_op \<Rightarrow> bool) \<Rightarrow> (string \<rightharpoonup> bytes) \<Rightarrow> string \<Rightarrow> store_error + (string \<rightharpoonup> bytes)" where
  "remove_object faults objs k =
     (if faults (Remove k) then Inl IOError else Inr (objs(k := None)))"

definition copy_object :: "(store_op \<Rightarrow> bool) \<Rightarrow> (string \<rightharpoonup> bytes) \<Rightarrow> string \<Rightarrow> string \<Rightarrow> store_error + (string \<rightharpoonup> bytes)" where
  "copy_object faults objs src dst =
     (if faults (Copy src dst) then Inl IOError
      else case objs src of None \<Rightarrow> Inl NoSuchKey | Some b \<Rightarrow> Inr (objs(dst \<mapsto> b)))"

definition no_faults :: "store_op \<Rightarrow> bool" where
  "no_faults opn = False"

subsection \<open>Requests and replies\<close>

text \<open>
  The body of an init request of server.js is the object \<^verbatim>\<open>req.body\<close> that the body
  parsers leave (the empty object when the request has no body): it holds raw fields, a
  field it does not hold being \<^verbatim>\<open>undefined\<close>. The chunk index of a chunk
  request is the number that \<^verbatim>\<open>parseInt\<close> (any \<open>jsnum\<close>) or \<^verbatim>\<open>strconv.Atoi\<close> reads from
  the form field; \<open>None\<close> is a missing field, and for Go also a field that is not an
  integer (400). A missing upload id is the empty string; an upload id that is no string,
  as a JSON body can hold one, is the key of no session and is left out.
\<close>

record init_request =
  req_fileName :: jsval
  req_fileSize :: jsval
  req_chunkSize :: jsval

record 'n chunk_request =
  req_uploadId :: string
  req_chunkIndex :: "'n option"
  req_chunk :: "bytes option"

definition chunk_req :: "string \<Rightarrow> 'n \<Rightarrow> bytes \<Rightarrow> 'n chunk_request" where
  "chunk_req uploadId i b = \<lparr>req_uploadId = uploadId, req_chunkIndex = Some i, req_chunk = Some b\<rparr>"

text \<open>What the environment supplies to init: the fresh UUID and the two clock readings.\<close>

record init_env =
  uuid :: string
  now :: int
  created :: int

record file_entry =
  entry_name :: string
  entry_size :: int
  entry_lastModified :: int
  entry_url :: string

text \<open>
  The replies of the handlers. The error replies are the spec's taxonomy:
  \<open>Bad_request\<close> is the ValidationError (HTTP 400), \<open>Not_found\<close> the NotFound (404),
  \<open>Incomplete\<close> the ConflictError with the uploaded and the total count (400), and
  \<open>Server_error\<close> the StorageError (500). The \<^verbatim>\<open>progress\<close> percentage of the status
  reply is a floating-point quotient of the two counts it carries and is left out.
\<close>

datatype ('v, 'n) reply =
  Init_ok string string 'n
| Chunk_ok 'n nat 'n
| Complete_ok string 'v string
| Cancel_ok
| Status_ok string 'v nat 'n
| Files_ok "file_entry list"
| Bad_request
| Not_found
| Incomplete nat 'n
| Server_error

fun http_status :: "('v, 'n) reply \<Rightarrow> nat" where
  "http_status Bad_request = 400"
| "http_status Not_found = 404"
| "http_status (Incomplete c n) = 400"
| "http_status Server_error = 500"
| "http_status r = 200"

definition downloadUrl :: "config \<Rightarrow> string \<Rightarrow> string" where
  "downloadUrl cfg obj =
     ''http://'' @ endPoint cfg @ '':'' @ show_int (port cfg) @ ''/'' @ bucketName cfg @ ''/'' @ obj"

text \<open>The download loop of the merge: the first part that cannot be read throws.\<close>

fun get_all :: "(store_op \<Rightarrow> bool) \<Rightarrow> (string \<rightharpoonup> bytes) \<Rightarrow> string list \<Rightarrow> store_error + bytes list" where
  "get_all faults objs [] = Inr []"
| "get_all faults objs (k # ks) =
     (case get_object faults objs k of
        Inl e \<Rightarrow> Inl e
      | Inr b \<Rightarrow> (case get_all faults objs ks of Inl e \<Rightarrow> Inl e | Inr bs \<Rightarrow> Inr (b # bs)))"

text \<open>One removal whose failure is caught and logged.\<close>

definition remove_logged :: "(store_op \<Rightarrow> bool) \<Rightarrow> (string \<rightharpoonup> bytes) \<Rightarrow> string \<Rightarrow> (string \<rightharpoonup> bytes)" where
  "remove_logged faults objs k =
     (case remove_object faults objs k of Inl e \<Rightarrow> objs | Inr objs' \<Rightarrow> objs')"

text \<open>A deletion loop over a list of keys: a removal that fails is logged and the loop goes on.\<close>

fun remove_all :: "(store_op \<Rightarrow> bool) \<Rightarrow> (string \<rightharpoonup> bytes) \<Rightarrow> string list \<Rightarrow> (string \<rightharpoonup> bytes)" where
  "remove_all faults objs [] = objs"
| "remove_all faults objs (k # ks) = remove_all faults (remove_logged faults objs k) ks"

subsection \<open>The handlers of server.js\<close>

text \<open>The part key of a chunk index: \<^verbatim>\<open>`${uploadInfo.objectName}.part${chunkIndexNum}`\<close>.\<close>

definition js_chunkObjectName :: "js_engine \<Rightarrow> string \<Rightarrow> jsnum \<Rightarrow> string" where
  "js_chunkObjectName eng obj i = obj @ ''.part'' @ js_show eng i"

definition js_init :: "js_engine \<Rightarrow> init_env \<Rightarrow> init_request \<Rightarrow> js_state \<Rightarrow> (jsval, jsnum) reply \<times> js_state" where
  "js_init eng env req s =
     (if \<not> js_truthy (req_fileName req) \<or> \<not> js_truthy (req_fileSize req) \<or> \<not> js_truthy (req_chunkSize req)
      then (Bad_request, s)
      else
        let uploadId = uuid env;
            obj = js_show eng (Num (now env)) @ ''_'' @ js_template eng (req_fileName req);
            total = js_ceil_quot eng (req_fileSize req) (req_chunkSize req)
        in (Init_ok uploadId obj total,
            s\<lparr>uploads := (uploads s)(uploadId \<mapsto>
              \<lparr>fileName = req_fileName req, objectName = obj,
               fileSize = js_parseInt eng (req_fileSize req),
               chunkSize = js_parseInt eng (req_chunkSize req),
               totalChunks = total, uploadedChunks = {}, createdAt = created env\<rparr>)\<rparr>))"

definition js_uploadChunk :: "js_engine \<Rightarrow> (store_op \<Rightarrow> bool) \<Rightarrow> jsnum chunk_request \<Rightarrow> js_state \<Rightarrow> (jsval, jsnum) reply \<times> js_state" where
  "js_uploadChunk eng faults req s =
     (case (req_chunkIndex req, req_chunk req) of
        (Some chunkIndexNum, Some buffer) \<Rightarrow>
          if req_uploadId req = [] then (Bad_request, s)
          else (case uploads s (req_uploadId req) of
            None \<Rightarrow> (Not_found, s)
          | Some uploadInfo \<Rightarrow>
              (case put_object faults (objects s) (js_chunkObjectName eng (objectName uploadInfo) chunkIndexNum) buffer of
                 Inl e \<Rightarrow> (Server_error, s)
               | Inr objs \<Rightarrow>
                   let info' = uploadInfo\<lparr>uploadedChunks := insert chunkIndexNum (uploadedChunks uploadInfo)\<rparr>
                   in (Chunk_ok chunkIndexNum (card (uploadedChunks info')) (totalChunks info'),
                       s\<lparr>uploads := (uploads s)(req_uploadId req \<mapsto> info'), objects := objs\<rparr>)))
      | _ \<Rightarrow> (Bad_request, s))"

text \<open>
  The part keys of indices \<open>0 .. n - 1\<close>, in the order of the loop that builds
  \<^verbatim>\<open>chunkObjects\<close> (none when \<open>n \<le> 0\<close>).
\<close>

definition js_chunkObjects :: "js_engine \<Rightarrow> string \<Rightarrow> int \<Rightarrow> string list" where
  "js_chunkObjects eng obj n = map (\<lambda>i. js_chunkObjectName eng obj (Num i)) [0 .. n - 1]"

text \<open>
  \<^verbatim>\<open>uploadedChunks.size !== totalChunks\<close> holds unless \<^verbatim>\<open>totalChunks\<close> is the integer
  that is the size of the set: an infinite or \<^verbatim>\<open>NaN\<close> \<^verbatim>\<open>totalChunks\<close> differs from every
  size. Past the check \<^verbatim>\<open>totalChunks\<close> is the size of a \<^verbatim>\<open>Set\<close>, which stays far below
  \<open>2 ^ 53\<close>, so the counters of the loops of the merge are exact and the loops run over
  the list of the part keys. An empty list makes \<^verbatim>\<open>chunkObjects[0].name\<close> throw (500); a
  removal that fails after the copy of a single part throws as well, the copy made.
\<close>

definition js_complete :: "js_engine \<Rightarrow> (store_op \<Rightarrow> bool) \<Rightarrow> config \<Rightarrow> string \<Rightarrow> js_state \<Rightarrow> (jsval, jsnum) reply \<times> js_state" where
  "js_complete eng faults cfg uploadId s =
     (if uploadId = [] then (Bad_request, s)
      else case uploads s uploadId of
        None \<Rightarrow> (Not_found, s)
      | Some uploadInfo \<Rightarrow>
          (case totalChunks uploadInfo of
             Num n \<Rightarrow>
               if int (card (uploadedChunks uploadInfo)) \<noteq> n
               then (Incomplete (card (uploadedChunks uploadInfo)) (totalChunks uploadInfo), s)
               else
                 let names = js_chunkObjects eng (objectName uploadInfo) n;
                     finalObject = objectName uploadInfo;
                     done = Complete_ok (downloadUrl cfg finalObject) (fileName uploadInfo) finalObject
                 in if length names > 1
                    then (case get_all faults (objects s) names of
                        Inl e \<Rightarrow> (Server_error, s)
                      | Inr chunks \<Rightarrow>
                          (case put_object faults (objects s) finalObject (concat chunks) of
                             Inl e \<Rightarrow> (Server_error, s)
                           | Inr objs \<Rightarrow>
                               (done, \<lparr>uploads = (uploads s)(uploadId := None),
                                       objects = remove_all faults objs names\<rparr>)))
                    else (case names of
                        [] \<Rightarrow> (Server_error, s)
                      | part0 # rest \<Rightarrow>
                          (case copy_object faults (objects s) part0 finalObject of
                             Inl e \<Rightarrow> (Server_error, s)
                           | Inr objs \<Rightarrow>
                               (case remove_object faults objs part0 of
                                  Inl e \<Rightarrow> (Server_error, s\<lparr>objects := objs\<rparr>)
                                | Inr objs' \<Rightarrow>
                                    (done, \<lparr>uploads = (uploads s)(uploadId := None), objects = objs'\<rparr>))))
           | _ \<Rightarrow> (Incomplete (card (uploadedChunks uploadInfo)) (totalChunks uploadInfo), s)))"

text \<open>
  The deletion loop of cancel, \<^verbatim>\<open>for (let i = 0; i < uploadInfo.totalChunks; i++)\<close>, with
  the removal in a \<^verbatim>\<open>try\<close>. The counter is a double: it stalls at \<open>2 ^ 53\<close>, and it is
  below \<^verbatim>\<open>Infinity\<close> forever, so the loop need not end: not returning is \<open>None\<close>.
\<close>

definition js_incr :: "int \<Rightarrow> int" where
  "js_incr i = (if i < 2 ^ 53 then i + 1 else i)"

fun js_less :: "int \<Rightarrow> jsnum \<Rightarrow> bool" where
  "js_less i (Num n) = (i < n)"
| "js_less i PInf = True"
| "js_less i NInf = False"
| "js_less i NaN = False"

partial_function (option) js_cancel_loop ::
  "js_engine \<Rightarrow> (store_op \<Rightarrow> bool) \<Rightarrow> string \<Rightarrow> jsnum \<Rightarrow> int \<Rightarrow> (string \<rightharpoonup> bytes) \<Rightarrow> (string \<rightharpoonup> bytes) option" where
  "js_cancel_loop eng faults obj bound i objs =
     (if js_less i bound
      then js_cancel_loop eng faults obj bound (js_incr i)
             (remove_logged faults objs (js_chunkObjectName eng obj (Num i)))
      else Some objs)"

definition js_cancel :: "js_engine \<Rightarrow> (store_op \<Rightarrow> bool) \<Rightarrow> string \<Rightarrow> js_state \<Rightarrow> ((jsval, jsnum) reply \<times> js_state) option" where
  "js_cancel eng faults uploadId s =
     (case uploads s uploadId of
        None \<Rightarrow> Some (Not_found, s)
      | Some uploadInfo \<Rightarrow>
          (case js_cancel_loop eng faults (objectName uploadInfo) (totalChunks uploadInfo) 0 (objects s) of
             None \<Rightarrow> None
           | Some objs \<Rightarrow>
               Some (Cancel_ok, \<lparr>uploads = (uploads s)(uploadId := None), objects = objs\<rparr>)))"

text \<open>
  When the deletion loop of cancel ends, and the part keys it then has visited: up to a
  bound of at most \<open>2 ^ 53\<close> the counter reaches the bound; \<^verbatim>\<open>-Infinity\<close> and \<^verbatim>\<open>NaN\<close> are
  above no counter.
\<close>

fun js_loop_ends :: "jsnum \<Rightarrow> bool" where
  "js_loop_ends (Num n) = (n \<le> 2 ^ 53)"
| "js_loop_ends PInf = False"
| "js_loop_ends NInf = True"
| "js_loop_ends NaN = True"

fun js_visited :: "js_engine \<Rightarrow> string \<Rightarrow> jsnum \<Rightarrow> string list" where
  "js_visited eng obj (Num n) = js_chunkObjects eng obj n"
| "js_visited eng obj bound = []"

text \<open>An index inside the range of a session: \<^verbatim>\<open>0 <= i && i < totalChunks\<close>.\<close>

fun js_in_range :: "jsnum \<Rightarrow> jsnum \<Rightarrow> bool" where
  "js_in_range (Num i) bound = (0 \<le> i \<and> js_less i bound)"
| "js_in_range i bound = False"

text \<open>The numbers whose printing the model computes: safe integers, infinities and \<^verbatim>\<open>NaN\<close>.\<close>

fun js_plain :: "jsnum \<Rightarrow> bool" where
  "js_plain (Num i) = js_safe i"
| "js_plain n = True"

definition js_status :: "string \<Rightarrow> js_state \<Rightarrow> (jsval, jsnum) reply" where
  "js_status uploadId s =
     (case uploads s uploadId of
        None \<Rightarrow> Not_found
      | Some uploadInfo \<Rightarrow>
          Status_ok uploadId (fileName uploadInfo) (card (uploadedChunks uploadInfo)) (totalChunks uploadInfo))"

text \<open>
  What \<^verbatim>\<open>listObjects\<close> yields, one item at a time: an object of the bucket, or the
  error that ends the stream.
\<close>

record obj_info =
  obj_key :: string
  obj_size :: int
  obj_lastModified :: int

datatype list_item = Listed obj_info | List_error

definition file_of :: "config \<Rightarrow> obj_info \<Rightarrow> file_entry" where
  "file_of cfg obj =
     \<lparr>entry_name = obj_key obj, entry_size = obj_size obj,
      entry_lastModified = obj_lastModified obj,
      entry_url = downloadUrl cfg (obj_key obj)\<rparr>"

text \<open>The \<^verbatim>\<open>for await\<close> loop of GET /api/files: \<open>None\<close> when the stream threw.\<close>

fun js_collect :: "config \<Rightarrow> list_item list \<Rightarrow> file_entry list \<Rightarrow> file_entry list option" where
  "js_collect cfg [] files = Some files"
| "js_collect cfg (List_error # rest) files = None"
| "js_collect cfg (Listed obj # rest) files = js_collect cfg rest (files @ [file_of cfg obj])"

definition js_listFiles :: "config \<Rightarrow> list_item list \<Rightarrow> (jsval, jsnum) reply" where
  "js_listFiles cfg stream =
     (case js_collect cfg stream [] of None \<Rightarrow> Server_error | Some files \<Rightarrow> Files_ok files)"

subsection \<open>The handlers of main.go\<close>

text \<open>
  The Go port keeps a registry and a bucket of the same shape. Its sizes are \<^verbatim>\<open>int64\<close>: the
  sum in the chunk count wraps around and the quotient truncates towards zero. Its locks
  (\<^verbatim>\<open>uploadsMutex\<close>, \<^verbatim>\<open>mu\<close>) do nothing in a run of one handler at a time.
  The body of an init request is what \<^verbatim>\<open>BodyParser\<close> makes of it: \<open>None\<close> when it does
  not parse into the three typed fields (400), a missing field being zero or empty. A
  chunk file that cannot be opened (500, the state unchanged) is not modelled.
\<close>

record go_init_request =
  go_fileName :: string
  go_fileSize :: "64 word"
  go_chunkSize :: "64 word"

definition go_quot :: "int \<Rightarrow> int \<Rightarrow> int" where
  "go_quot a b = (if (a < 0) = (b < 0) then \<bar>a\<bar> div \<bar>b\<bar> else - (\<bar>a\<bar> div \<bar>b\<bar>))"

text \<open>\<^verbatim>\<open>int((request.FileSize + request.ChunkSize - 1) / request.ChunkSize)\<close>\<close>

definition go_totalChunks :: "64 word \<Rightarrow> 64 word \<Rightarrow> int" where
  "go_totalChunks fs cs = sint (word_of_int (go_quot (sint (fs + cs - 1)) (sint cs)) :: 64 word)"

text \<open>The part key of chunk \<open>i\<close>: \<^verbatim>\<open>fmt.Sprintf("%s.part%d", uploadInfo.ObjectName, i)\<close>.\<close>

definition chunkObjectName :: "string \<Rightarrow> int \<Rightarrow> string" where
  "chunkObjectName obj i = obj @ ''.part'' @ show_int i"

text \<open>The part keys of indices \<open>0 .. n - 1\<close>, in the order of the loops (none when \<open>n \<le> 0\<close>).\<close>

definition chunkObjects :: "string \<Rightarrow> int \<Rightarrow> string list" where
  "chunkObjects obj n = map (chunkObjectName obj) [0 .. n - 1]"

fun go_init :: "init_env \<Rightarrow> go_init_request option \<Rightarrow> go_state \<Rightarrow> (string, int) reply \<times> go_state" where
  "go_init env None s = (Bad_request, s)"
| "go_init env (Some req) s =
     (if go_fileName req = [] \<or> go_fileSize req = 0 \<or> go_chunkSize req = 0
      then (Bad_request, s)
      else
        let uploadID = uuid env;
            obj = show_int (now env) @ ''_'' @ go_fileName req;
            total = go_totalChunks (go_fileSize req) (go_chunkSize req)
        in (Init_ok uploadID obj total,
            s\<lparr>uploads := (uploads s)(uploadID \<mapsto>
              \<lparr>fileName = go_fileName req, objectName = obj,
               fileSize = sint (go_fileSize req), chunkSize = sint (go_chunkSize req),
               totalChunks = total, uploadedChunks = {}, createdAt = created env\<rparr>)\<rparr>))"

text \<open>\<^verbatim>\<open>strconv.Atoi\<close> refuses a number that does not fit the 64-bit \<^verbatim>\<open>int\<close>.\<close>

definition in_int64 :: "int \<Rightarrow> bool" where
  "in_int64 i = (- (2 ^ 63) \<le> i \<and> i < 2 ^ 63)"

definition go_uploadChunk :: "(store_op \<Rightarrow> bool) \<Rightarrow> int chunk_request \<Rightarrow> go_state \<Rightarrow> (string, int) reply \<times> go_state" where
  "go_uploadChunk faults req s =
     (if req_uploadId req = [] then (Bad_request, s)
      else case req_chunkIndex req of
        None \<Rightarrow> (Bad_request, s)
      | Some chunkIndex \<Rightarrow>
          if \<not> in_int64 chunkIndex then (Bad_request, s)
          else (case uploads s (req_uploadId req) of
            None \<Rightarrow> (Not_found, s)
          | Some uploadInfo \<Rightarrow>
              (case req_chunk req of
                 None \<Rightarrow> (Bad_request, s)
               | Some fileContent \<Rightarrow>
                   (case put_object faults (objects s) (chunkObjectName (objectName uploadInfo) chunkIndex) fileContent of
                      Inl e \<Rightarrow> (Server_error, s)
                    | Inr objs \<Rightarrow>
                        let info' = uploadInfo\<lparr>uploadedChunks := insert chunkIndex (uploadedChunks uploadInfo)\<rparr>
                        in (Chunk_ok chunkIndex (card (uploadedChunks info')) (totalChunks info'),
                            s\<lparr>uploads := (uploads s)(req_uploadId req \<mapsto> info'), objects := objs\<rparr>)))))"

definition go_complete :: "(store_op \<Rightarrow> bool) \<Rightarrow> config \<Rightarrow> string \<Rightarrow> go_state \<Rightarrow> (string, int) reply \<times> go_state" where
  "go_complete faults cfg uploadId s =
     (if uploadId = [] then (Bad_request, s)
      else case uploads s uploadId of
        None \<Rightarrow> (Not_found, s)
      | Some uploadInfo \<Rightarrow>
          let uploadedCount = card (uploadedChunks uploadInfo);
              total = totalChunks uploadInfo
          in if int uploadedCount \<noteq> total then (Incomplete uploadedCount total, s)
          else
            let finalObject = objectName uploadInfo;
                done = Complete_ok (downloadUrl cfg finalObject) (fileName uploadInfo) finalObject
            in if total > 1
               then (case get_all faults (objects s) (chunkObjects (objectName uploadInfo) total) of
                   Inl e \<Rightarrow> (Server_error, s)
                 | Inr chunks \<Rightarrow>
                     (case put_object faults (objects s) finalObject (concat chunks) of
                        Inl e \<Rightarrow> (Server_error, s)
                      | Inr objs \<Rightarrow>
                          (done, \<lparr>uploads = (uploads s)(uploadId := None),
                                  objects = remove_all faults objs (chunkObjects (objectName uploadInfo) total)\<rparr>)))
               else (case copy_object faults (objects s) (chunkObjectName (objectName uploadInfo) 0) finalObject of
                   Inl e \<Rightarrow> (Server_error, s)
                 | Inr objs \<Rightarrow>
                     (done, \<lparr>uploads = (uploads s)(uploadId := None),
                             objects = remove_all faults objs [chunkObjectName (objectName uploadInfo) 0]\<rparr>)))"

definition go_cancel :: "(store_op \<Rightarrow> bool) \<Rightarrow> string \<Rightarrow> go_state \<Rightarrow> (string, int) reply \<times> go_state" where
  "go_cancel faults uploadID s =
     (case uploads s uploadID of
        None \<Rightarrow> (Not_found, s)
      | Some uploadInfo \<Rightarrow>
          (Cancel_ok,
           \<lparr>uploads = (uploads s)(uploadID := None),
            objects = remove_all faults (objects s)
                        (chunkObjects (objectName uploadInfo) (totalChunks uploadInfo))\<rparr>))"

text \<open>
  The status reply carries \<^verbatim>\<open>float64(uploadedCount) / float64(totalChunks) * 100\<close>. With
  \<^verbatim>\<open>totalChunks\<close> zero that is \<^verbatim>\<open>NaN\<close> or an infinity, which the JSON encoder refuses: the
  handler returns the error and the error handler replies 500.
\<close>

definition go_status :: "string \<Rightarrow> go_state \<Rightarrow> (string, int) reply" where
  "go_status uploadID s =
     (case uploads s uploadID of
        None \<Rightarrow> Not_found
      | Some uploadInfo \<Rightarrow>
          if totalChunks uploadInfo = 0 then Server_error
          else Status_ok uploadID (fileName uploadInfo) (card (uploadedChunks uploadInfo)) (totalChunks uploadInfo))"

text \<open>\<^verbatim>\<open>strings.Contains(s, substr)\<close>\<close>

fun str_contains :: "string \<Rightarrow> string \<Rightarrow> bool" where
  "str_contains [] sub = (sub = [])"
| "str_contains (c # cs) sub = (take (length sub) (c # cs) = sub \<or> str_contains cs sub)"

text \<open>The loop of \<^verbatim>\<open>listFiles\<close>, which skips every key that contains \<^verbatim>\<open>.part\<close>.\<close>

fun go_collect :: "config \<Rightarrow> list_item list \<Rightarrow> file_entry list \<Rightarrow> file_entry list option" where
  "go_collect cfg [] files = Some files"
| "go_collect cfg (List_error # rest) files = None"
| "go_collect cfg (Listed obj # rest) files =
     (if str_contains (obj_key obj) ''.part'' then go_collect cfg rest files
      else go_collect cfg rest (files @ [file_of cfg obj]))"

definition go_listFiles :: "config \<Rightarrow> list_item list \<Rightarrow> (string, int) reply" where
  "go_listFiles cfg stream =
     (case go_collect cfg stream [] of None \<Rightarrow> Server_error | Some files \<Rightarrow> Files_ok files)"

subsection \<open>The part-key pattern\<close>

text \<open>
  The pattern \<^verbatim>\<open>*.part<digits>\<close> of the specification: the key ends in \<^verbatim>\<open>.part\<close>
  followed by one or more decimal digits.
\<close>

definition matches_part_pattern :: "string \<Rightarrow> bool" where
  "matches_part_pattern k =
     (let r = rev k in
      takeWhile is_digit r \<noteq> [] \<and> take 5 (dropWhile is_digit r) = rev ''.part'')"

subsection \<open>Upload histories\<close>

text \<open>
  A history of successful chunk uploads to one session: the index and the bytes of each
  call, in the order of the calls. \<open>latest ups i\<close> is what the last upload of index \<open>i\<close>
  sent.
\<close>

fun js_upload_all :: "js_engine \<Rightarrow> string \<Rightarrow> (jsnum \<times> bytes) list \<Rightarrow> js_state \<Rightarrow> js_state" where
  "js_upload_all eng uploadId [] s = s"
| "js_upload_all eng uploadId ((i, b) # ups) s =
     js_upload_all eng uploadId ups (snd (js_uploadChunk eng no_faults (chunk_req uploadId i b) s))"

fun go_upload_all :: "string \<Rightarrow> (int \<times> bytes) list \<Rightarrow> go_state \<Rightarrow> go_state" where
  "go_upload_all uploadId [] s = s"
| "go_upload_all uploadId ((i, b) # ups) s =
     go_upload_all uploadId ups (snd (go_uploadChunk no_faults (chunk_req uploadId i b) s))"

definition latest :: "('n \<times> bytes) list \<Rightarrow> 'n \<Rightarrow> bytes" where
  "latest ups i = (case map_of (rev ups) i of None \<Rightarrow> [] | Some b \<Rightarrow> b)"

text \<open>The bytes stored under a key (none stored: no bytes).\<close>

definition stored_bytes :: "('v, 'n) state \<Rightarrow> string \<Rightarrow> bytes" where
  "stored_bytes s k = (case objects s k of None \<Rightarrow> [] | Some b \<Rightarrow> b)"

text \<open>The effect of one successful upload on the bucket, given the part key of an index.\<close>

definition store_part :: "('n \<Rightarrow> string) \<Rightarrow> (string \<rightharpoonup> bytes) \<Rightarrow> 'n \<times> bytes \<Rightarrow> (string \<rightharpoonup> bytes)" where
  "store_part key m p = m(key (fst p) \<mapsto> snd p)"

text \<open>
  The history in which every index is uploaded exactly once, with the bytes of its last
  upload: an upload is dropped when the same index is uploaded again later.
\<close>

fun keep_last :: "('n \<times> bytes) list \<Rightarrow> ('n \<times> bytes) list" where
  "keep_last [] = []"
| "keep_last ((i, b) # ups) = (if i \<in> fst ` set ups then keep_last ups else (i, b) # keep_last ups)"

subsection \<open>A running example\<close>

text \<open>
  The example of the specification: \<^verbatim>\<open>a.bin\<close> of 10 bytes in chunks of 4, created
  at clock reading 1 under the upload id \<^verbatim>\<open>u1\<close>, on each of the two servers. The
  examples stay within what the model computes itself, so any engine will do.
\<close>

definition ex_engine :: js_engine where
  "ex_engine = \<lparr>number_to_string = show_int, to_string = (\<lambda>v. ''[object Object]''),
     parse_int = (\<lambda>v. NaN), ceil_quotient = (\<lambda>a b. NaN)\<rparr>"

definition ex_cfg :: config where
  "ex_cfg = \<lparr>endPoint = ''localhost'', port = 9000, bucketName = ''uploads''\<rparr>"

definition ex_env :: init_env where
  "ex_env = \<lparr>uuid = ''u1'', now = 1, created = 1\<rparr>"

definition ex_env2 :: init_env where
  "ex_env2 = \<lparr>uuid = ''u2'', now = 1, created = 1\<rparr>"

definition js_empty_state :: js_state where
  "js_empty_state = \<lparr>uploads = Map.empty, objects = Map.empty\<rparr>"

definition go_empty_state :: go_state where
  "go_empty_state = \<lparr>uploads = Map.empty, objects = Map.empty\<rparr>"

definition js_ex_session :: js_session where
  "js_ex_session = \<lparr>fileName = JStr ''a.bin'', objectName = ''1_a.bin'', fileSize = Num 10,
     chunkSize = Num 4, totalChunks = Num 3, uploadedChunks = {}, createdAt = 1\<rparr>"

definition go_ex_session :: go_session where
  "go_ex_session = \<lparr>fileName = ''a.bin'', objectName = ''1_a.bin'', fileSize = 10, chunkSize = 4,
     totalChunks = 3, uploadedChunks = {}, createdAt = 1\<rparr>"

definition js_ex_state :: js_state where
  "js_ex_state = \<lparr>uploads = [''u1'' \<mapsto> js_ex_session], objects = Map.empty\<rparr>"

definition go_ex_state :: go_state where
  "go_ex_state = \<lparr>uploads = [''u1'' \<mapsto> go_ex_session], objects = Map.empty\<rparr>"

text \<open>
  A history for the example: chunk 2 first, chunk 0 twice (the retry replaces its bytes),
  chunk 1 in between.
\<close>

definition go_ex_ups :: "(int \<times> bytes) list" where
  "go_ex_ups = [(2, [5]), (0, [9, 9]), (1, [3, 4]), (0, [1, 2])]"

definition js_ex_ups :: "(jsnum \<times> bytes) list" where
  "js_ex_ups = map (\<lambda>p. (Num (fst p), snd p)) go_ex_ups"

text \<open>A history that also uploads an index outside the range of the example session.\<close>

definition go_ex_stray_ups :: "(int \<times> bytes) list" where
  "go_ex_stray_ups = [(0, [1, 2]), (7, [8])]"

definition js_ex_stray_ups :: "(jsnum \<times> bytes) list" where
  "js_ex_stray_ups = map (\<lambda>p. (Num (fst p), snd p)) go_ex_stray_ups"


definition js_inf_session :: js_session where
  "js_inf_session = \<lparr>fileName = JStr ''a.bin'', objectName = ''1_a.bin'', fileSize = NaN,
     chunkSize = Num 1, totalChunks = PInf, uploadedChunks = {}, createdAt = 1\<rparr>"

definition js_inf_state :: js_state where
  "js_inf_state = \<lparr>uploads = [''u1'' \<mapsto> js_inf_session], objects = Map.empty\<rparr>"

section \<open>Lemmas\<close>

subsection \<open>Decimal numerals, the store and histories\<close>

lemma digit_val_digit_char: "d < 10 \<Longrightarrow> digit_val (digit_char d) = d"
proof -
  assume "d < 10"
  then have "d \<in> {0, 1, 2, 3, 4, 5, 6, 7, 8, 9}" by auto
  then show ?thesis by (auto simp: digit_char_def digit_val_def)
qed

lemma is_digit_digit_char: "d < 10 \<Longrightarrow> is_digit (digit_char d)"
proof -
  assume "d < 10"
  then have "d \<in> {0, 1, 2, 3, 4, 5, 6, 7, 8, 9}" by auto
  then show ?thesis by (auto simp: digit_char_def is_digit_def)
qed

lemma digits_val_show_nat: "digits_val (show_nat n) = n"
proof (induction n rule: show_nat.induct)
  case (1 n)
  show ?case
  proof (cases "n < 10")
    case True
    then show ?thesis
      by (simp add: show_nat.simps [of n] digits_val_def digit_val_digit_char)
  next
    case False
    with 1 have "digits_val (show_nat (n div 10)) = n div 10" by simp
    with False show ?thesis
      by (simp add: show_nat.simps [of n] digits_val_def digit_val_digit_char)
  qed
qed

lemma show_nat_inj: "show_nat m = show_nat n \<Longrightarrow> m = n"
  by (metis digits_val_show_nat)

lemma show_nat_digits: "c \<in> set (show_nat n) \<Longrightarrow> is_digit c"
proof (induction n rule: show_nat.induct)
  case (1 n)
  show ?case
  proof (cases "n < 10")
    case True
    with 1(2) show ?thesis
      by (simp add: show_nat.simps [of n] is_digit_digit_char)
  next
    case False
    with 1 show ?thesis
      by (auto simp: show_nat.simps [of n] is_digit_digit_char)
  qed
qed

lemma show_nat_nonempty: "show_nat n \<noteq> []"
  by (simp add: show_nat.simps [of n])

lemma show_int_inj: "show_int i = show_int j \<Longrightarrow> i = j"
proof -
  assume eq: "show_int i = show_int j"
  have nd: "\<not> is_digit CHR ''-''" by (simp add: is_digit_def)
  have hd_digit: "\<And>n. is_digit (hd (show_nat n))"
    using show_nat_digits show_nat_nonempty by (metis hd_in_set)
  show ?thesis
  proof (cases "i < 0")
    case True
    show ?thesis
    proof (cases "j < 0")
      case True
      with \<open>i < 0\<close> eq have "show_nat (nat (- i)) = show_nat (nat (- j))"
        by (simp add: show_int_def)
      then have "nat (- i) = nat (- j)" by (rule show_nat_inj)
      with True \<open>i < 0\<close> show ?thesis by simp
    next
      case False
      with \<open>i < 0\<close> eq have "CHR ''-'' # show_nat (nat (- i)) = show_nat (nat j)"
        by (simp add: show_int_def)
      then have "hd (show_nat (nat j)) = CHR ''-''" by (metis list.sel(1))
      with hd_digit [of "nat j"] nd show ?thesis by simp
    qed
  next
    case False
    show ?thesis
    proof (cases "j < 0")
      case True
      with False eq have "show_nat (nat i) = CHR ''-'' # show_nat (nat (- j))"
        by (simp add: show_int_def)
      then have "hd (show_nat (nat i)) = CHR ''-''" by (metis list.sel(1))
      with hd_digit [of "nat i"] nd show ?thesis by simp
    next
      case False
      with \<open>\<not> i < 0\<close> eq have "show_nat (nat i) = show_nat (nat j)"
        by (simp add: show_int_def)
      then have "nat i = nat j" by (rule show_nat_inj)
      with False \<open>\<not> i < 0\<close> show ?thesis by simp
    qed
  qed
qed

lemma get_all_ok:
  "\<forall>k\<in>set ks. \<not> faults (Get k) \<and> objs k \<noteq> None \<Longrightarrow>
   get_all faults objs ks = Inr (map (\<lambda>k. the (objs k)) ks)"
proof (induction ks)
  case Nil
  show ?case by simp
next
  case (Cons k ks)
  then obtain b where "objs k = Some b" "\<not> faults (Get k)" by auto
  with Cons show ?case by (simp add: get_object_def)
qed

lemma get_all_fails:
  "k \<in> set ks \<Longrightarrow> isl (get_object faults objs k) \<Longrightarrow> isl (get_all faults objs ks)"
  by (induction ks) (auto split: sum.splits)

lemma remove_logged_apply:
  "remove_logged faults objs k k' = (if k' = k \<and> \<not> faults (Remove k) then None else objs k')"
  by (simp add: remove_logged_def remove_object_def)

lemma remove_all_apply:
  "remove_all faults objs ks k = (if k \<in> set ks \<and> \<not> faults (Remove k) then None else objs k)"
  by (induction ks arbitrary: objs) (auto simp: remove_logged_apply)

lemma store_part_apply: "store_part key m (i, b) = m(key i \<mapsto> b)"
  by (simp add: store_part_def)

lemma foldl_parts_key:
  assumes "inj_on key (insert j (fst ` set ups))"
  shows "foldl (store_part key) m0 ups (key j) =
    (if j \<in> fst ` set ups then Some (latest ups j) else m0 (key j))"
  using assms
proof (induction ups arbitrary: m0 rule: rev_induct)
  case Nil
  show ?case by simp
next
  case (snoc p ups)
  obtain i b where p: "p = (i, b)" by (cases p)
  from snoc.prems have inj': "inj_on key (insert j (fst ` set ups))"
    by (rule inj_on_subset) auto
  show ?case
  proof (cases "i = j")
    case True
    then show ?thesis by (simp add: p latest_def store_part_apply)
  next
    case False
    moreover have "i \<in> insert j (fst ` set (ups @ [p]))" "j \<in> insert j (fst ` set (ups @ [p]))"
      by (simp_all add: p)
    ultimately have "key i \<noteq> key j" using snoc.prems by (meson inj_onD)
    with False snoc.IH [OF inj'] show ?thesis by (simp add: p latest_def store_part_apply)
  qed
qed

lemma foldl_parts_other:
  "k \<notin> key ` fst ` set ups \<Longrightarrow> foldl (store_part key) m0 ups k = m0 k"
  by (induction ups arbitrary: m0) (auto simp: store_part_apply)

lemma foldl_parts_absorb:
  "i \<in> fst ` set ups \<Longrightarrow>
   foldl (store_part key) (m(key i \<mapsto> b)) ups = foldl (store_part key) m ups"
proof (induction ups arbitrary: m)
  case Nil
  then show ?case by simp
next
  case (Cons p ups)
  obtain j c where p: "p = (j, c)" by (cases p)
  have step: "foldl (store_part key) m' (p # ups) = foldl (store_part key) (m'(key j \<mapsto> c)) ups" for m'
    by (simp only: p foldl_Cons store_part_apply)
  show ?case
  proof (cases "key j = key i")
    case True
    have "(m(key i \<mapsto> b))(key i \<mapsto> c) = m(key i \<mapsto> c)" by (rule fun_upd_upd)
    then have "(m(key i \<mapsto> b))(key j \<mapsto> c) = m(key j \<mapsto> c)" by (simp only: True)
    then show ?thesis by (simp only: step)
  next
    case False
    then have "j \<noteq> i" by auto
    with Cons.prems have mem: "i \<in> fst ` set ups" by (auto simp: p)
    from False have "key i \<noteq> key j" by simp
    then have tw: "(m(key i \<mapsto> b))(key j \<mapsto> c) = (m(key j \<mapsto> c))(key i \<mapsto> b)"
      by (rule fun_upd_twist)
    have "foldl (store_part key) (m(key i \<mapsto> b)) (p # ups)
        = foldl (store_part key) ((m(key j \<mapsto> c))(key i \<mapsto> b)) ups"
      by (simp only: step tw)
    also have "\<dots> = foldl (store_part key) (m(key j \<mapsto> c)) ups"
      by (rule Cons.IH [OF mem])
    also have "\<dots> = foldl (store_part key) m (p # ups)"
      by (simp only: step)
    finally show ?thesis .
  qed
qed

lemma latest_Cons_absorbed:
  "j \<in> fst ` set ups \<Longrightarrow> latest (p # ups) j = latest ups j"
proof -
  assume "j \<in> fst ` set ups"
  then have "j \<in> dom (map_of (rev ups))" by (simp add: dom_map_of_conv_image_fst)
  then show ?thesis by (auto simp: latest_def map_add_dom_app_simps split: option.splits)
qed

lemma fst_set_keep_last: "fst ` set (keep_last ups) = fst ` set ups"
  by (induction ups rule: keep_last.induct) auto

lemma distinct_keep_last: "distinct (map fst (keep_last ups))"
proof (induction ups rule: keep_last.induct)
  case 1
  show ?case by simp
next
  case (2 i b ups)
  have "fst ` set (keep_last ups) = fst ` set ups" by (rule fst_set_keep_last)
  with 2 show ?case by auto
qed

lemma filter_keep_last:
  "filter (\<lambda>p. P (fst p)) (keep_last ups) = keep_last (filter (\<lambda>p. P (fst p)) ups)"
  by (induction ups rule: keep_last.induct) (auto simp: image_iff)

lemma keep_last_replicate: "keep_last (replicate (Suc n) (i, b)) = [(i, b)]"
  by (induction n) auto

lemma not_digit_t: "\<not> is_digit CHR ''t''"
  by (simp add: is_digit_def)

lemma matches_part_patternI:
  assumes "ds \<noteq> []" and "\<forall>c\<in>set ds. is_digit c"
  shows "matches_part_pattern (pre @ ''.part'' @ ds)"
proof -
  let ?tail = "CHR ''t'' # (''rap.'' @ rev pre)"
  have r: "rev (pre @ ''.part'' @ ds) = rev ds @ ?tail" by simp
  have all: "\<And>c. c \<in> set (rev ds) \<Longrightarrow> is_digit c" using assms(2) by simp
  have "takeWhile is_digit (rev ds @ ?tail) = rev ds @ takeWhile is_digit ?tail"
    using all by (rule takeWhile_append2)
  then have tw: "takeWhile is_digit (rev ds @ ?tail) = rev ds"
    using not_digit_t by simp
  have "dropWhile is_digit (rev ds @ ?tail) = dropWhile is_digit ?tail"
    using all by (rule dropWhile_append2)
  then have dw: "dropWhile is_digit (rev ds @ ?tail) = ?tail"
    using not_digit_t by simp
  show ?thesis
    unfolding matches_part_pattern_def Let_def r tw dw using assms(1) by simp
qed

lemma matches_part_patternD:
  assumes "matches_part_pattern k"
  shows "\<exists>pre ds. k = pre @ ''.part'' @ ds \<and> ds \<noteq> [] \<and> (\<forall>c\<in>set ds. is_digit c)"
proof -
  let ?r = "rev k"
  let ?ds = "takeWhile is_digit ?r"
  let ?rest = "dropWhile is_digit ?r"
  from assms have ne: "?ds \<noteq> []" and tk: "take 5 ?rest = rev ''.part''"
    by (simp_all add: matches_part_pattern_def Let_def)
  have "take 5 ?rest @ drop 5 ?rest = ?rest" by (rule append_take_drop_id)
  then have rest: "rev ''.part'' @ drop 5 ?rest = ?rest" by (simp only: tk)
  have "?ds @ ?rest = ?r" by (rule takeWhile_dropWhile_id)
  then have "rev (?ds @ ?rest) = k" by (simp only: rev_rev_ident)
  then have "rev ?rest @ rev ?ds = k" by (simp only: rev_append)
  moreover have "rev (rev ''.part'' @ drop 5 ?rest) = rev ?rest" by (simp only: rest)
  then have "rev (drop 5 ?rest) @ ''.part'' = rev ?rest" by (simp only: rev_append rev_rev_ident)
  ultimately have "k = rev (drop 5 ?rest) @ ''.part'' @ rev ?ds" by (metis append_assoc)
  moreover have "rev ?ds \<noteq> []" using ne by simp
  moreover have "\<forall>c\<in>set (rev ?ds). is_digit c" by (auto dest: set_takeWhileD)
  ultimately show ?thesis by blast
qed

lemma str_contains_infix: "str_contains (pre @ sub @ post) sub"
proof (induction pre)
  case Nil
  show ?case
  proof (cases "sub @ post")
    case Nil
    then show ?thesis by simp
  next
    case (Cons a l)
    have "take (length sub) (sub @ post) = sub" by simp
    then have "take (length sub) (a # l) = sub" by (simp only: Cons)
    then have "str_contains (a # l) sub" by (simp only: str_contains.simps) simp
    then show ?thesis by (simp only: append_Nil Cons)
  qed
next
  case (Cons c pre)
  then show ?case by simp
qed

lemma pattern_contains_part: "matches_part_pattern k \<Longrightarrow> str_contains k ''.part''"
  using matches_part_patternD str_contains_infix by metis

lemma is_digit_not_underscore: "is_digit c \<Longrightarrow> c \<noteq> CHR ''_''"
  by (auto simp: is_digit_def)

lemma pattern_of_prefixed:
  assumes "matches_part_pattern (stamp @ ''_'' @ name)"
  shows "matches_part_pattern name"
proof -
  from matches_part_patternD [OF assms] obtain pre ds where
    eq: "stamp @ ''_'' @ name = pre @ ''.part'' @ ds" and ne: "ds \<noteq> []"
    and dig: "\<forall>c\<in>set ds. is_digit c" by blast
  have nounder: "CHR ''_'' \<notin> set (''.part'' @ ds)"
    using dig is_digit_not_underscore by auto
  from eq have "(stamp @ ''_'') @ name = pre @ (''.part'' @ ds)" by simp
  then obtain us where
    "(stamp @ ''_'' = pre @ us \<and> us @ name = ''.part'' @ ds) \<or>
     ((stamp @ ''_'') @ us = pre \<and> name = us @ (''.part'' @ ds))"
    unfolding append_eq_append_conv2 by blast
  then show ?thesis
  proof
    assume a: "stamp @ ''_'' = pre @ us \<and> us @ name = ''.part'' @ ds"
    show ?thesis
    proof (cases "us = []")
      case True
      with a have "name = [] @ ''.part'' @ ds" by simp
      then show ?thesis using matches_part_patternI [OF ne dig] by metis
    next
      case False
      with a have "last us = CHR ''_''" by (metis last_appendR last_snoc)
      with False have "CHR ''_'' \<in> set us" by (metis last_in_set)
      with a have "CHR ''_'' \<in> set (''.part'' @ ds)" by (metis Un_iff set_append)
      with nounder show ?thesis by blast
    qed
  next
    assume "(stamp @ ''_'') @ us = pre \<and> name = us @ (''.part'' @ ds)"
    then have "name = us @ ''.part'' @ ds" by simp
    then show ?thesis using matches_part_patternI [OF ne dig] by metis
  qed
qed

lemma go_collect_no_part:
  "go_collect cfg stream files = Some out \<Longrightarrow>
   \<forall>e\<in>set files. \<not> str_contains (entry_name e) ''.part'' \<Longrightarrow>
   \<forall>e\<in>set out. \<not> str_contains (entry_name e) ''.part''"
proof (induction cfg stream files rule: go_collect.induct)
  case (1 cfg files)
  then show ?case by simp
next
  case (2 cfg rest files)
  then show ?case by simp
next
  case (3 cfg obj rest files)
  show ?case
  proof (cases "str_contains (obj_key obj) ''.part''")
    case True
    with 3 show ?thesis by simp
  next
    case False
    then have "\<forall>e\<in>set (files @ [file_of cfg obj]). \<not> str_contains (entry_name e) ''.part''"
      using 3(4) by (simp add: file_of_def)
    with 3 False show ?thesis by simp
  qed
qed

lemma go_listFiles_no_part:
  assumes "go_listFiles cfg stream = Files_ok files" and "e \<in> set files"
  shows "\<not> matches_part_pattern (entry_name e)"
proof -
  from assms(1) have "go_collect cfg stream [] = Some files"
    by (simp add: go_listFiles_def split: option.splits)
  from go_collect_no_part [OF this] assms(2) have "\<not> str_contains (entry_name e) ''.part''"
    by simp
  then show ?thesis using pattern_contains_part by blast
qed

subsection \<open>Numbers and part keys of server.js; the deletion loop of cancel\<close>

lemma js_show_safe: "js_safe i \<Longrightarrow> js_show eng (Num i) = show_int i"
  by (simp add: js_show_def)

lemma show_int_head: "show_int i \<noteq> [] \<and> (hd (show_int i) = CHR ''-'' \<or> is_digit (hd (show_int i)))"
  using show_nat_digits [of "hd (show_nat (nat i))" "nat i"] show_nat_nonempty [of "nat i"]
  by (auto simp: show_int_def)

lemma show_int_minus_tail:
  "show_int i = CHR ''-'' # rest \<Longrightarrow> rest \<noteq> [] \<and> is_digit (hd rest)"
proof -
  assume a: "show_int i = CHR ''-'' # rest"
  have nd: "\<not> is_digit CHR ''-''" by (simp add: is_digit_def)
  have d: "is_digit (hd (show_nat n))" for n
    using show_nat_digits [of "hd (show_nat n)" n] show_nat_nonempty [of n] by simp
  show ?thesis
  proof (cases "i < 0")
    case True
    with a have "rest = show_nat (nat (- i))" by (simp add: show_int_def)
    then show ?thesis using d show_nat_nonempty by simp
  next
    case False
    with a have "show_nat (nat i) = CHR ''-'' # rest" by (simp add: show_int_def)
    then have "hd (show_nat (nat i)) = CHR ''-''" by simp
    with d [of "nat i"] nd show ?thesis by simp
  qed
qed

lemma show_int_not_special:
  "show_int i \<noteq> ''Infinity''" "show_int i \<noteq> ''-Infinity''" "show_int i \<noteq> ''NaN''"
proof -
  have h: "hd (show_int i) = CHR ''-'' \<or> is_digit (hd (show_int i))"
    using show_int_head by blast
  show "show_int i \<noteq> ''Infinity''"
  proof
    assume "show_int i = ''Infinity''"
    with h show False by (simp add: is_digit_def)
  qed
  show "show_int i \<noteq> ''NaN''"
  proof
    assume "show_int i = ''NaN''"
    with h show False by (simp add: is_digit_def)
  qed
  show "show_int i \<noteq> ''-Infinity''"
  proof
    assume "show_int i = ''-Infinity''"
    then have "show_int i = CHR ''-'' # ''Infinity''" by simp
    from show_int_minus_tail [OF this] show False by (simp add: is_digit_def)
  qed
qed

lemma js_show_inj_plain:
  assumes "js_plain a" and "js_plain b" and "js_show eng a = js_show eng b"
  shows "a = b"
proof (cases a)
  case (Num i)
  with assms(1) have si: "js_show eng a = show_int i" by (simp add: js_show_def)
  show ?thesis
  proof (cases b)
    case (Num j)
    with assms(2) have "js_show eng b = show_int j" by (simp add: js_show_def)
    with si assms(3) have "i = j" by (simp add: show_int_inj)
    with Num \<open>a = Num i\<close> show ?thesis by simp
  next
    case PInf
    with si assms(3) show_int_not_special(1) [of i] show ?thesis by (simp add: js_show_def)
  next
    case NInf
    with si assms(3) show_int_not_special(2) [of i] show ?thesis by (simp add: js_show_def)
  next
    case NaN
    with si assms(3) show_int_not_special(3) [of i] show ?thesis by (simp add: js_show_def)
  qed
next
  case PInf
  show ?thesis
  proof (cases b)
    case (Num j)
    with assms(2) have "js_show eng b = show_int j" by (simp add: js_show_def)
    with PInf assms(3) show_int_not_special(1) [of j] show ?thesis by (simp add: js_show_def)
  qed (use PInf assms(3) in \<open>simp_all add: js_show_def\<close>)
next
  case NInf
  show ?thesis
  proof (cases b)
    case (Num j)
    with assms(2) have "js_show eng b = show_int j" by (simp add: js_show_def)
    with NInf assms(3) show_int_not_special(2) [of j] show ?thesis by (simp add: js_show_def)
  qed (use NInf assms(3) in \<open>simp_all add: js_show_def\<close>)
next
  case NaN
  show ?thesis
  proof (cases b)
    case (Num j)
    with assms(2) have "js_show eng b = show_int j" by (simp add: js_show_def)
    with NaN assms(3) show_int_not_special(3) [of j] show ?thesis by (simp add: js_show_def)
  qed (use NaN assms(3) in \<open>simp_all add: js_show_def\<close>)
qed

lemma js_chunkObjectName_inj_plain:
  "js_plain a \<Longrightarrow> js_plain b \<Longrightarrow>
   js_chunkObjectName eng obj a = js_chunkObjectName eng obj b \<Longrightarrow> a = b"
  by (simp add: js_chunkObjectName_def js_show_inj_plain)

lemma js_chunkObjectName_inj_on_plain:
  "\<forall>a\<in>A. js_plain a \<Longrightarrow> inj_on (js_chunkObjectName eng obj) A"
  by (rule inj_onI) (blast intro: js_chunkObjectName_inj_plain)

lemma js_chunkObjectName_neq_obj: "js_chunkObjectName eng obj i \<noteq> obj"
  by (simp add: js_chunkObjectName_def)

lemma set_js_chunkObjects:
  "set (js_chunkObjects eng obj n) = (\<lambda>i. js_chunkObjectName eng obj (Num i)) ` {0 ..< n}"
proof -
  have "{0 .. n - 1} = {0 ..< n}" by auto
  then show ?thesis by (simp add: js_chunkObjects_def)
qed

lemma length_js_chunkObjects: "length (js_chunkObjects eng obj n) = nat n"
  by (simp add: js_chunkObjects_def)

lemma js_chunkObjects_one: "js_chunkObjects eng obj 1 = [js_chunkObjectName eng obj (Num 0)]"
  by (simp add: js_chunkObjects_def)

lemma js_chunkObjects_nonpos: "n \<le> 0 \<Longrightarrow> js_chunkObjects eng obj n = []"
  by (simp add: js_chunkObjects_def)

lemma obj_notin_js_chunkObjects: "obj \<notin> set (js_chunkObjects eng obj n)"
  by (auto simp: set_js_chunkObjects js_chunkObjectName_def)

lemma map_parts_js_chunkObjects:
  "map (\<lambda>k. the (objs k)) (js_chunkObjects eng obj n)
     = map (\<lambda>i. the (objs (js_chunkObjectName eng obj (Num i)))) [0 .. n - 1]"
  by (simp add: js_chunkObjects_def comp_def)

lemma js_complete_incomplete:
  assumes "uploads s uploadId = Some u" and "uploadId \<noteq> []"
    and "totalChunks u \<noteq> Num (int (card (uploadedChunks u)))"
  shows "js_complete eng faults cfg uploadId s = (Incomplete (card (uploadedChunks u)) (totalChunks u), s)"
  using assms by (auto simp: js_complete_def split: jsnum.splits)

lemma js_cancel_loop_stop:
  "\<not> js_less i bound \<Longrightarrow> js_cancel_loop eng faults obj bound i objs = Some objs"
  by (subst js_cancel_loop.simps) simp

lemma js_cancel_loop_finite:
  "n \<le> 2 ^ 53 \<Longrightarrow>
   js_cancel_loop eng faults obj (Num n) i objs
     = Some (remove_all faults objs (map (\<lambda>i. js_chunkObjectName eng obj (Num i)) [i .. n - 1]))"
proof (induction "nat (n - i)" arbitrary: i objs)
  case 0
  then have "\<not> js_less i (Num n)" by simp
  moreover from 0 have "[i .. n - 1] = []" by simp
  ultimately show ?case by (simp add: js_cancel_loop_stop)
next
  case (Suc k)
  then have lt: "i < n" by linarith
  with Suc.prems have inc: "js_incr i = i + 1" by (simp add: js_incr_def)
  from lt have up: "[i .. n - 1] = i # [i + 1 .. n - 1]" by (simp add: upto_rec1)
  from Suc.hyps(2) have "k = nat (n - (i + 1))" by linarith
  from Suc.hyps(1) [OF this Suc.prems]
  have "js_cancel_loop eng faults obj (Num n) (i + 1) objs'
     = Some (remove_all faults objs' (map (\<lambda>i. js_chunkObjectName eng obj (Num i)) [i + 1 .. n - 1]))"
    for objs' .
  with lt inc up show ?case
    by (subst js_cancel_loop.simps) simp
qed

lemma js_cancel_loop_returns:
  "js_loop_ends bound \<Longrightarrow>
   js_cancel_loop eng faults obj bound 0 objs = Some (remove_all faults objs (js_visited eng obj bound))"
  by (cases bound) (simp_all add: js_cancel_loop_finite js_cancel_loop_stop js_chunkObjects_def)

lemma js_cancel_loop_never_some:
  assumes "js_cancel_loop eng faults obj bound i objs = Some y"
  shows "\<not> (i \<le> 2 ^ 53 \<and> (bound = PInf \<or> (\<exists>n. bound = Num n \<and> 2 ^ 53 < n)))"
proof (rule js_cancel_loop.raw_induct
    [where P = "\<lambda>eng faults obj bound i objs y.
       \<not> (i \<le> 2 ^ 53 \<and> (bound = PInf \<or> (\<exists>n. bound = Num n \<and> 2 ^ 53 < n)))", OF _ assms])
  fix loop :: "js_engine \<Rightarrow> (store_op \<Rightarrow> bool) \<Rightarrow> string \<Rightarrow> jsnum \<Rightarrow> int \<Rightarrow> (string \<rightharpoonup> bytes) \<Rightarrow> (string \<rightharpoonup> bytes) option"
  fix eng faults obj bound i objs y
  assume IH: "\<And>eng faults obj bound i objs y. loop eng faults obj bound i objs = Some y \<Longrightarrow>
      \<not> (i \<le> 2 ^ 53 \<and> (bound = PInf \<or> (\<exists>n. bound = Num n \<and> 2 ^ 53 < n)))"
  assume body: "(if js_less i bound
      then loop eng faults obj bound (js_incr i)
             (remove_logged faults objs (js_chunkObjectName eng obj (Num i)))
      else Some objs) = Some y"
  show "\<not> (i \<le> 2 ^ 53 \<and> (bound = PInf \<or> (\<exists>n. bound = Num n \<and> 2 ^ 53 < n)))"
  proof
    assume a: "i \<le> 2 ^ 53 \<and> (bound = PInf \<or> (\<exists>n. bound = Num n \<and> 2 ^ 53 < n))"
    then have less: "js_less i bound" by auto
    from a have "js_incr i \<le> 2 ^ 53" by (simp add: js_incr_def)
    with a have next_ok: "js_incr i \<le> 2 ^ 53 \<and> (bound = PInf \<or> (\<exists>n. bound = Num n \<and> 2 ^ 53 < n))"
      by simp
    from body less have
      "loop eng faults obj bound (js_incr i)
         (remove_logged faults objs (js_chunkObjectName eng obj (Num i))) = Some y" by simp
    from IH [OF this] next_ok show False by blast
  qed
qed

lemma js_cancel_loop_diverges:
  "\<not> js_loop_ends bound \<Longrightarrow> js_cancel_loop eng faults obj bound 0 objs = None"
proof (rule ccontr)
  assume ne: "\<not> js_loop_ends bound"
  assume "js_cancel_loop eng faults obj bound 0 objs \<noteq> None"
  then obtain y where "js_cancel_loop eng faults obj bound 0 objs = Some y" by auto
  from js_cancel_loop_never_some [OF this] ne show False by (cases bound) auto
qed

lemma js_cancel_returns:
  assumes "uploads s uploadId = Some u" and "js_loop_ends (totalChunks u)"
  shows "js_cancel eng faults uploadId s =
    Some (Cancel_ok, \<lparr>uploads = (uploads s)(uploadId := None),
       objects = remove_all faults (objects s) (js_visited eng (objectName u) (totalChunks u))\<rparr>)"
  using assms by (simp add: js_cancel_def js_cancel_loop_returns)

lemma js_cancel_diverges:
  assumes "uploads s uploadId = Some u" and "\<not> js_loop_ends (totalChunks u)"
  shows "js_cancel eng faults uploadId s = None"
  using assms by (simp add: js_cancel_def js_cancel_loop_diverges)

lemma js_cancel_Some_ends:
  assumes "uploads s uploadId = Some u" and "js_cancel eng faults uploadId s = Some r"
  shows "js_loop_ends (totalChunks u)"
  using assms js_cancel_diverges by fastforce

subsection \<open>complete and upload histories in server.js\<close>

lemma js_complete_fails_multi:
  assumes "uploads s uploadId = Some u" and "uploadId \<noteq> []"
    and "totalChunks u = Num n" and "int (card (uploadedChunks u)) = n"
    and "1 < n"
    and "(\<exists>i. 0 \<le> i \<and> i < n \<and> isl (get_object faults (objects s) (js_chunkObjectName eng (objectName u) (Num i))))
         \<or> faults (Put (objectName u))"
  shows "js_complete eng faults cfg uploadId s = (Server_error, s)"
proof -
  have len: "1 < length (js_chunkObjects eng (objectName u) n)"
    using assms(5) by (simp add: length_js_chunkObjects)
  show ?thesis
  proof (cases "get_all faults (objects s) (js_chunkObjects eng (objectName u) n)")
    case (Inl e)
    with assms(1-4) len show ?thesis by (simp add: js_complete_def Let_def)
  next
    case (Inr chunks)
    have "\<not> (\<exists>i. 0 \<le> i \<and> i < n \<and> isl (get_object faults (objects s) (js_chunkObjectName eng (objectName u) (Num i))))"
    proof
      assume "\<exists>i. 0 \<le> i \<and> i < n \<and> isl (get_object faults (objects s) (js_chunkObjectName eng (objectName u) (Num i)))"
      then obtain i where i: "0 \<le> i" "i < n"
        "isl (get_object faults (objects s) (js_chunkObjectName eng (objectName u) (Num i)))" by blast
      then have "js_chunkObjectName eng (objectName u) (Num i) \<in> set (js_chunkObjects eng (objectName u) n)"
        by (simp add: set_js_chunkObjects)
      from get_all_fails [OF this i(3)] Inr show False by simp
    qed
    with assms(6) have "faults (Put (objectName u))" by blast
    with assms(1-4) len Inr show ?thesis
      by (simp add: js_complete_def Let_def put_object_def)
  qed
qed

lemma js_complete_fails_single:
  assumes "uploads s uploadId = Some u" and "uploadId \<noteq> []"
    and "totalChunks u = Num n" and "int (card (uploadedChunks u)) = n"
    and "n \<le> 1"
    and "isl (copy_object faults (objects s) (js_chunkObjectName eng (objectName u) (Num 0)) (objectName u))"
  shows "js_complete eng faults cfg uploadId s = (Server_error, s)"
proof -
  from assms(4) have "0 \<le> n" by linarith
  with assms(5) consider "n = 0" | "n = 1" by linarith
  then show ?thesis
  proof cases
    case 1
    with assms(1-4) show ?thesis
      by (simp add: js_complete_def Let_def js_chunkObjects_nonpos)
  next
    case 2
    with assms(1-4,6) show ?thesis
      by (auto simp: js_complete_def Let_def js_chunkObjects_one split: sum.splits)
  qed
qed

lemma js_complete_merges:
  assumes "uploads s uploadId = Some u" and "uploadId \<noteq> []"
    and "totalChunks u = Num n" and "int (card (uploadedChunks u)) = n" and "0 < n"
    and parts: "\<forall>i. 0 \<le> i \<and> i < n \<longrightarrow>
           objects s (js_chunkObjectName eng (objectName u) (Num i)) \<noteq> None \<and>
           \<not> faults (Get (js_chunkObjectName eng (objectName u) (Num i)))"
    and "\<not> faults (Put (objectName u))"
    and "\<not> faults (Copy (js_chunkObjectName eng (objectName u) (Num 0)) (objectName u))"
  shows "objects (snd (js_complete eng faults cfg uploadId s)) (objectName u) =
     Some (concat (map (\<lambda>i. the (objects s (js_chunkObjectName eng (objectName u) (Num i)))) [0 .. n - 1]))"
    (is "?bytes")
    and "(\<forall>k. \<not> faults (Remove k)) \<longrightarrow>
       fst (js_complete eng faults cfg uploadId s) =
         Complete_ok (downloadUrl cfg (objectName u)) (fileName u) (objectName u) \<and>
       uploads (snd (js_complete eng faults cfg uploadId s)) = (uploads s)(uploadId := None)"
    (is "?reply")
proof -
  let ?names = "js_chunkObjects eng (objectName u) n"
  show ?bytes
  proof (cases "n = 1")
    case True
    from parts True obtain b where b: "objects s (js_chunkObjectName eng (objectName u) (Num 0)) = Some b"
      by auto
    have ne: "js_chunkObjectName eng (objectName u) (Num 0) \<noteq> objectName u"
      by (rule js_chunkObjectName_neq_obj)
    from assms(1-4,8) True b ne show ?thesis
      by (simp add: js_complete_def Let_def js_chunkObjects_one copy_object_def remove_object_def)
  next
    case False
    with assms(5) have len: "1 < length ?names" by (simp add: length_js_chunkObjects)
    have "\<forall>k\<in>set ?names. \<not> faults (Get k) \<and> objects s k \<noteq> None"
      using parts by (auto simp: set_js_chunkObjects)
    then have got: "get_all faults (objects s) ?names = Inr (map (\<lambda>k. the (objects s k)) ?names)"
      by (rule get_all_ok)
    from assms(1-4,7) len got show ?thesis
      by (simp add: js_complete_def Let_def put_object_def remove_all_apply
          obj_notin_js_chunkObjects map_parts_js_chunkObjects)
  qed
  show ?reply
  proof (cases "n = 1")
    case True
    from parts True obtain b where b: "objects s (js_chunkObjectName eng (objectName u) (Num 0)) = Some b"
      by auto
    from assms(1-4,8) True b show ?thesis
      by (simp add: js_complete_def Let_def js_chunkObjects_one copy_object_def remove_object_def)
  next
    case False
    with assms(5) have len: "1 < length ?names" by (simp add: length_js_chunkObjects)
    have "\<forall>k\<in>set ?names. \<not> faults (Get k) \<and> objects s k \<noteq> None"
      using parts by (auto simp: set_js_chunkObjects)
    then have got: "get_all faults (objects s) ?names = Inr (map (\<lambda>k. the (objects s k)) ?names)"
      by (rule get_all_ok)
    from assms(1-4,7) len got show ?thesis
      by (simp add: js_complete_def Let_def put_object_def)
  qed
qed

lemma js_uploadChunk_ok:
  assumes "uploads s uploadId = Some u" and "uploadId \<noteq> []"
    and "\<not> faults (Put (js_chunkObjectName eng (objectName u) i))"
  shows "js_uploadChunk eng faults (chunk_req uploadId i b) s =
    (Chunk_ok i (card (insert i (uploadedChunks u))) (totalChunks u),
     s\<lparr>uploads := (uploads s)(uploadId \<mapsto> u\<lparr>uploadedChunks := insert i (uploadedChunks u)\<rparr>),
       objects := (objects s)(js_chunkObjectName eng (objectName u) i \<mapsto> b)\<rparr>)"
  using assms by (simp add: js_uploadChunk_def chunk_req_def put_object_def Let_def)

lemma js_upload_all_uploads:
  assumes "uploads s uploadId = Some u" and "uploadId \<noteq> []"
  shows "uploads (js_upload_all eng uploadId ups s) =
    (uploads s)(uploadId \<mapsto> u\<lparr>uploadedChunks := uploadedChunks u \<union> fst ` set ups\<rparr>)"
  using assms
proof (induction ups arbitrary: s u)
  case Nil
  then show ?case by (simp add: fun_upd_idem)
next
  case (Cons p ups)
  obtain i b where p: "p = (i, b)" by (cases p)
  let ?u' = "u\<lparr>uploadedChunks := insert i (uploadedChunks u)\<rparr>"
  let ?s' = "snd (js_uploadChunk eng no_faults (chunk_req uploadId i b) s)"
  have s': "uploads ?s' = (uploads s)(uploadId \<mapsto> ?u')"
    using Cons.prems by (simp add: js_uploadChunk_ok no_faults_def)
  then have "uploads ?s' uploadId = Some ?u'" by simp
  from Cons.IH [OF this Cons.prems(2)]
  have "uploads (js_upload_all eng uploadId ups ?s') =
    (uploads ?s')(uploadId \<mapsto> ?u'\<lparr>uploadedChunks := uploadedChunks ?u' \<union> fst ` set ups\<rparr>)" .
  also have "\<dots> = (uploads s)(uploadId \<mapsto> u\<lparr>uploadedChunks := uploadedChunks u \<union> fst ` set (p # ups)\<rparr>)"
    by (simp add: s' p)
  finally show ?case by (simp add: p)
qed

lemma js_upload_all_objects:
  assumes "uploads s uploadId = Some u" and "uploadId \<noteq> []"
  shows "objects (js_upload_all eng uploadId ups s) =
    foldl (store_part (js_chunkObjectName eng (objectName u))) (objects s) ups"
  using assms
proof (induction ups arbitrary: s u)
  case Nil
  then show ?case by simp
next
  case (Cons p ups)
  obtain i b where p: "p = (i, b)" by (cases p)
  let ?u' = "u\<lparr>uploadedChunks := insert i (uploadedChunks u)\<rparr>"
  let ?s' = "snd (js_uploadChunk eng no_faults (chunk_req uploadId i b) s)"
  have s': "uploads ?s' = (uploads s)(uploadId \<mapsto> ?u')"
     "objects ?s' = (objects s)(js_chunkObjectName eng (objectName u) i \<mapsto> b)"
    using Cons.prems by (simp_all add: js_uploadChunk_ok no_faults_def)
  then have "uploads ?s' uploadId = Some ?u'" by simp
  from Cons.IH [OF this Cons.prems(2)]
  have "objects (js_upload_all eng uploadId ups ?s') =
    foldl (store_part (js_chunkObjectName eng (objectName ?u'))) (objects ?s') ups" .
  then show ?case by (simp add: p s' store_part_apply)
qed

lemma js_upload_all_no_session:
  "uploadId = [] \<or> uploads s uploadId = None \<Longrightarrow> js_upload_all eng uploadId ups s = s"
proof (induction ups arbitrary: s)
  case Nil
  show ?case by simp
next
  case (Cons p ups)
  obtain i b where p: "p = (i, b)" by (cases p)
  from Cons.prems have "js_uploadChunk eng no_faults (chunk_req uploadId i b) s = (Bad_request, s)
      \<or> js_uploadChunk eng no_faults (chunk_req uploadId i b) s = (Not_found, s)"
    by (auto simp: js_uploadChunk_def chunk_req_def)
  then have "snd (js_uploadChunk eng no_faults (chunk_req uploadId i b) s) = s" by auto
  with Cons show ?case by (simp add: p)
qed

lemma js_upload_all_absorb:
  assumes "i \<in> fst ` set ups"
  shows "js_upload_all eng uploadId ((i, b) # ups) s = js_upload_all eng uploadId ups s"
proof (cases "uploadId = [] \<or> uploads s uploadId = None")
  case True
  then show ?thesis by (simp only: js_upload_all_no_session)
next
  case False
  then obtain u where u: "uploads s uploadId = Some u" and ne: "uploadId \<noteq> []" by auto
  have "uploads (js_upload_all eng uploadId ((i, b) # ups) s) = uploads (js_upload_all eng uploadId ups s)"
    using assms by (simp only: js_upload_all_uploads [OF u ne]) (simp add: insert_absorb)
  moreover have "objects (js_upload_all eng uploadId ((i, b) # ups) s) = objects (js_upload_all eng uploadId ups s)"
    by (simp only: js_upload_all_objects [OF u ne] foldl_Cons store_part_apply
        foldl_parts_absorb [OF assms])
  ultimately show ?thesis by (rule state.equality) simp
qed

lemma js_upload_all_keep_last:
  "js_upload_all eng uploadId (keep_last ups) s = js_upload_all eng uploadId ups s"
proof (induction ups arbitrary: s)
  case Nil
  show ?case by simp
next
  case (Cons p ups)
  obtain i b where p: "p = (i, b)" by (cases p)
  show ?case
  proof (cases "i \<in> fst ` set ups")
    case True
    then show ?thesis using Cons by (simp only: p keep_last.simps if_True js_upload_all_absorb)
  next
    case False
    then show ?thesis using Cons by (simp add: p)
  qed
qed

subsection \<open>The handlers of main.go\<close>

lemma chunkObjectName_inj: "chunkObjectName obj i = chunkObjectName obj j \<Longrightarrow> i = j"
  by (simp add: chunkObjectName_def show_int_inj)

lemma chunkObjectName_neq_obj: "chunkObjectName obj i \<noteq> obj"
  by (simp add: chunkObjectName_def)

lemma set_chunkObjects: "set (chunkObjects obj n) = chunkObjectName obj ` {0 ..< n}"
proof -
  have "{0 .. n - 1} = {0 ..< n}" by auto
  then show ?thesis by (simp add: chunkObjects_def)
qed

lemma length_chunkObjects: "length (chunkObjects obj n) = nat n"
  by (simp add: chunkObjects_def)

lemma chunkObjects_one: "chunkObjects obj 1 = [chunkObjectName obj 0]"
  by (simp add: chunkObjects_def)

lemma chunkObjects_nonpos: "n \<le> 0 \<Longrightarrow> chunkObjects obj n = []"
  by (simp add: chunkObjects_def)

lemma go_complete_incomplete:
  assumes "uploads s uploadId = Some u" and "uploadId \<noteq> []"
    and "int (card (uploadedChunks u)) < totalChunks u"
  shows "go_complete faults cfg uploadId s = (Incomplete (card (uploadedChunks u)) (totalChunks u), s)"
  using assms by (simp add: go_complete_def Let_def)

lemma go_complete_fails_multi:
  assumes "uploads s uploadId = Some u" and "uploadId \<noteq> []"
    and "int (card (uploadedChunks u)) = totalChunks u"
    and "1 < totalChunks u"
    and "(\<exists>i. 0 \<le> i \<and> i < totalChunks u \<and> isl (get_object faults (objects s) (chunkObjectName (objectName u) i)))
         \<or> faults (Put (objectName u))"
  shows "go_complete faults cfg uploadId s = (Server_error, s)"
proof (cases "get_all faults (objects s) (chunkObjects (objectName u) (totalChunks u))")
  case (Inl e)
  with assms(1-4) show ?thesis by (simp add: go_complete_def Let_def)
next
  case (Inr chunks)
  have "\<not> (\<exists>i. 0 \<le> i \<and> i < totalChunks u \<and> isl (get_object faults (objects s) (chunkObjectName (objectName u) i)))"
  proof
    assume "\<exists>i. 0 \<le> i \<and> i < totalChunks u \<and> isl (get_object faults (objects s) (chunkObjectName (objectName u) i))"
    then obtain i where i: "0 \<le> i" "i < totalChunks u"
      "isl (get_object faults (objects s) (chunkObjectName (objectName u) i))" by blast
    then have "chunkObjectName (objectName u) i \<in> set (chunkObjects (objectName u) (totalChunks u))"
      by (simp add: set_chunkObjects)
    from get_all_fails [OF this i(3)] Inr show False by simp
  qed
  with assms(5) have "faults (Put (objectName u))" by blast
  with assms(1-4) Inr show ?thesis
    by (simp add: go_complete_def Let_def put_object_def)
qed

lemma go_complete_fails_single:
  assumes "uploads s uploadId = Some u" and "uploadId \<noteq> []"
    and "int (card (uploadedChunks u)) = totalChunks u"
    and "totalChunks u \<le> 1"
    and "isl (copy_object faults (objects s) (chunkObjectName (objectName u) 0) (objectName u))"
  shows "go_complete faults cfg uploadId s = (Server_error, s)"
  using assms by (auto simp: go_complete_def Let_def split: sum.splits)

lemma go_uploadChunk_ok:
  assumes "uploads s uploadId = Some u" and "uploadId \<noteq> []" and "in_int64 i"
    and "\<not> faults (Put (chunkObjectName (objectName u) i))"
  shows "go_uploadChunk faults (chunk_req uploadId i b) s =
    (Chunk_ok i (card (insert i (uploadedChunks u))) (totalChunks u),
     s\<lparr>uploads := (uploads s)(uploadId \<mapsto> u\<lparr>uploadedChunks := insert i (uploadedChunks u)\<rparr>),
       objects := (objects s)(chunkObjectName (objectName u) i \<mapsto> b)\<rparr>)"
  using assms by (simp add: go_uploadChunk_def chunk_req_def put_object_def Let_def)

lemma map_parts_chunkObjects:
  "map (\<lambda>k. the (objs k)) (chunkObjects obj n) = map (\<lambda>i. the (objs (chunkObjectName obj i))) [0 .. n - 1]"
  by (simp add: chunkObjects_def comp_def)

lemma obj_notin_chunkObjects: "obj \<notin> set (chunkObjects obj n)"
  by (auto simp: set_chunkObjects chunkObjectName_def)

lemma go_complete_merges:
  assumes "uploads s uploadId = Some u" and "uploadId \<noteq> []"
    and "int (card (uploadedChunks u)) = totalChunks u" and "0 < totalChunks u"
    and parts: "\<forall>i. 0 \<le> i \<and> i < totalChunks u \<longrightarrow>
           objects s (chunkObjectName (objectName u) i) \<noteq> None \<and>
           \<not> faults (Get (chunkObjectName (objectName u) i))"
    and "\<not> faults (Put (objectName u))"
    and "\<not> faults (Copy (chunkObjectName (objectName u) 0) (objectName u))"
  shows "objects (snd (go_complete faults cfg uploadId s)) (objectName u) =
     Some (concat (map (\<lambda>i. the (objects s (chunkObjectName (objectName u) i))) [0 .. totalChunks u - 1]))"
    (is "?bytes")
    and "fst (go_complete faults cfg uploadId s) =
         Complete_ok (downloadUrl cfg (objectName u)) (fileName u) (objectName u) \<and>
       uploads (snd (go_complete faults cfg uploadId s)) = (uploads s)(uploadId := None)"
    (is "?reply")
proof -
  let ?names = "chunkObjects (objectName u) (totalChunks u)"
  have ne: "chunkObjectName (objectName u) 0 \<noteq> objectName u"
    by (rule chunkObjectName_neq_obj)
  show ?bytes
  proof (cases "totalChunks u = 1")
    case True
    from parts True obtain b where b: "objects s (chunkObjectName (objectName u) 0) = Some b"
      by auto
    from assms(1-3,7) True b ne show ?thesis
      by (simp add: go_complete_def Let_def copy_object_def remove_logged_apply)
  next
    case False
    with assms(4) have len: "1 < totalChunks u" by simp
    have "\<forall>k\<in>set ?names. \<not> faults (Get k) \<and> objects s k \<noteq> None"
      using parts by (auto simp: set_chunkObjects)
    then have got: "get_all faults (objects s) ?names = Inr (map (\<lambda>k. the (objects s k)) ?names)"
      by (rule get_all_ok)
    from assms(1-3,6) len got show ?thesis
      by (simp add: go_complete_def Let_def put_object_def remove_all_apply
          obj_notin_chunkObjects map_parts_chunkObjects)
  qed
  show ?reply
  proof (cases "totalChunks u = 1")
    case True
    from parts True obtain b where b: "objects s (chunkObjectName (objectName u) 0) = Some b"
      by auto
    from assms(1-3,7) True b show ?thesis
      by (simp add: go_complete_def Let_def copy_object_def)
  next
    case False
    with assms(4) have len: "1 < totalChunks u" by simp
    have "\<forall>k\<in>set ?names. \<not> faults (Get k) \<and> objects s k \<noteq> None"
      using parts by (auto simp: set_chunkObjects)
    then have got: "get_all faults (objects s) ?names = Inr (map (\<lambda>k. the (objects s k)) ?names)"
      by (rule get_all_ok)
    from assms(1-3,6) len got show ?thesis
      by (simp add: go_complete_def Let_def put_object_def)
  qed
qed

lemma go_uploadChunk_out_of_int64:
  "\<not> in_int64 i \<Longrightarrow> go_uploadChunk faults (chunk_req uploadId i b) s = (Bad_request, s)"
  by (simp add: go_uploadChunk_def chunk_req_def)

lemma go_cancel_objects:
  assumes "uploads s uploadId = Some u"
  shows "objects (snd (go_cancel faults uploadId s)) k =
    (if k \<in> chunkObjectName (objectName u) ` {0 ..< totalChunks u} \<and> \<not> faults (Remove k)
     then None else objects s k)"
  using assms by (simp add: go_cancel_def remove_all_apply set_chunkObjects)

lemma go_cancel_uploads:
  assumes "uploads s uploadId = Some u"
  shows "uploads (snd (go_cancel faults uploadId s)) = (uploads s)(uploadId := None)"
  using assms by (simp add: go_cancel_def)

lemma go_upload_all_filter:
  "go_upload_all uploadId ups s = go_upload_all uploadId (filter (\<lambda>p. in_int64 (fst p)) ups) s"
proof (induction ups arbitrary: s)
  case Nil
  show ?case by simp
next
  case (Cons p ups)
  obtain i b where p: "p = (i, b)" by (cases p)
  show ?case
    by (cases "in_int64 i") (simp_all add: p Cons [symmetric] go_uploadChunk_out_of_int64)
qed

lemma go_upload_all_uploads:
  assumes "uploads s uploadId = Some u" and "uploadId \<noteq> []"
    and "\<forall>p\<in>set ups. in_int64 (fst p)"
  shows "uploads (go_upload_all uploadId ups s) =
    (uploads s)(uploadId \<mapsto> u\<lparr>uploadedChunks := uploadedChunks u \<union> fst ` set ups\<rparr>)"
  using assms
proof (induction ups arbitrary: s u)
  case Nil
  then show ?case by (simp add: fun_upd_idem)
next
  case (Cons p ups)
  obtain i b where p: "p = (i, b)" by (cases p)
  let ?u' = "u\<lparr>uploadedChunks := insert i (uploadedChunks u)\<rparr>"
  let ?s' = "snd (go_uploadChunk no_faults (chunk_req uploadId i b) s)"
  from Cons.prems(3) have i: "in_int64 i" and rest: "\<forall>p\<in>set ups. in_int64 (fst p)"
    by (simp_all add: p)
  have s': "uploads ?s' = (uploads s)(uploadId \<mapsto> ?u')"
    using Cons.prems(1,2) i by (simp add: go_uploadChunk_ok no_faults_def)
  then have "uploads ?s' uploadId = Some ?u'" by simp
  from Cons.IH [OF this Cons.prems(2) rest]
  have "uploads (go_upload_all uploadId ups ?s') =
    (uploads ?s')(uploadId \<mapsto> ?u'\<lparr>uploadedChunks := uploadedChunks ?u' \<union> fst ` set ups\<rparr>)" .
  also have "\<dots> = (uploads s)(uploadId \<mapsto> u\<lparr>uploadedChunks := uploadedChunks u \<union> fst ` set (p # ups)\<rparr>)"
    by (simp add: s' p)
  finally show ?case by (simp add: p)
qed

lemma go_upload_all_objects:
  assumes "uploads s uploadId = Some u" and "uploadId \<noteq> []"
    and "\<forall>p\<in>set ups. in_int64 (fst p)"
  shows "objects (go_upload_all uploadId ups s) =
    foldl (store_part (chunkObjectName (objectName u))) (objects s) ups"
  using assms
proof (induction ups arbitrary: s u)
  case Nil
  then show ?case by simp
next
  case (Cons p ups)
  obtain i b where p: "p = (i, b)" by (cases p)
  let ?u' = "u\<lparr>uploadedChunks := insert i (uploadedChunks u)\<rparr>"
  let ?s' = "snd (go_uploadChunk no_faults (chunk_req uploadId i b) s)"
  from Cons.prems(3) have i: "in_int64 i" and rest: "\<forall>p\<in>set ups. in_int64 (fst p)"
    by (simp_all add: p)
  have s': "uploads ?s' = (uploads s)(uploadId \<mapsto> ?u')"
     "objects ?s' = (objects s)(chunkObjectName (objectName u) i \<mapsto> b)"
    using Cons.prems(1,2) i by (simp_all add: go_uploadChunk_ok no_faults_def)
  then have "uploads ?s' uploadId = Some ?u'" by simp
  from Cons.IH [OF this Cons.prems(2) rest]
  have "objects (go_upload_all uploadId ups ?s') =
    foldl (store_part (chunkObjectName (objectName ?u'))) (objects ?s') ups" .
  then show ?case by (simp add: p s' store_part_apply)
qed

lemma go_upload_all_no_session:
  "uploadId = [] \<or> uploads s uploadId = None \<Longrightarrow> go_upload_all uploadId ups s = s"
proof (induction ups arbitrary: s)
  case Nil
  show ?case by simp
next
  case (Cons p ups)
  obtain i b where p: "p = (i, b)" by (cases p)
  from Cons.prems have "go_uploadChunk no_faults (chunk_req uploadId i b) s = (Bad_request, s)
      \<or> go_uploadChunk no_faults (chunk_req uploadId i b) s = (Not_found, s)"
    by (auto simp: go_uploadChunk_def chunk_req_def)
  then have "snd (go_uploadChunk no_faults (chunk_req uploadId i b) s) = s" by auto
  with Cons show ?case by (simp add: p)
qed

lemma go_upload_all_absorb_valid:
  assumes "i \<in> fst ` set ups" and "\<forall>p\<in>set ((i, b) # ups). in_int64 (fst p)"
  shows "go_upload_all uploadId ((i, b) # ups) s = go_upload_all uploadId ups s"
proof (cases "uploadId = [] \<or> uploads s uploadId = None")
  case True
  then show ?thesis by (simp only: go_upload_all_no_session)
next
  case False
  then obtain u where u: "uploads s uploadId = Some u" and ne: "uploadId \<noteq> []" by auto
  from assms(2) have rest: "\<forall>p\<in>set ups. in_int64 (fst p)" by simp
  have "uploads (go_upload_all uploadId ((i, b) # ups) s) = uploads (go_upload_all uploadId ups s)"
    using assms(1)
    by (simp only: go_upload_all_uploads [OF u ne assms(2)] go_upload_all_uploads [OF u ne rest])
       (simp add: insert_absorb)
  moreover have "objects (go_upload_all uploadId ((i, b) # ups) s) = objects (go_upload_all uploadId ups s)"
    by (simp only: go_upload_all_objects [OF u ne assms(2)] go_upload_all_objects [OF u ne rest]
        foldl_Cons store_part_apply foldl_parts_absorb [OF assms(1)])
  ultimately show ?thesis by (rule state.equality) simp
qed

lemma go_upload_all_keep_last_valid:
  "\<forall>p\<in>set ups. in_int64 (fst p) \<Longrightarrow>
   go_upload_all uploadId (keep_last ups) s = go_upload_all uploadId ups s"
proof (induction ups arbitrary: s)
  case Nil
  show ?case by simp
next
  case (Cons p ups)
  obtain i b where p: "p = (i, b)" by (cases p)
  from Cons.prems have rest: "\<forall>p\<in>set ups. in_int64 (fst p)" by simp
  show ?case
  proof (cases "i \<in> fst ` set ups")
    case True
    from Cons.prems have "\<forall>q\<in>set ((i, b) # ups). in_int64 (fst q)" by (simp add: p)
    from go_upload_all_absorb_valid [OF True this] Cons.IH [OF rest] True show ?thesis
      by (simp only: p keep_last.simps if_True)
  next
    case False
    then show ?thesis using Cons.IH [OF rest] by (simp add: p)
  qed
qed

lemma go_upload_all_keep_last:
  "go_upload_all uploadId (keep_last ups) s = go_upload_all uploadId ups s"
proof -
  have valid: "\<forall>p\<in>set (filter (\<lambda>p. in_int64 (fst p)) ups). in_int64 (fst p)" by simp
  have "go_upload_all uploadId (keep_last ups) s
      = go_upload_all uploadId (filter (\<lambda>p. in_int64 (fst p)) (keep_last ups)) s"
    by (rule go_upload_all_filter)
  also have "\<dots> = go_upload_all uploadId (keep_last (filter (\<lambda>p. in_int64 (fst p)) ups)) s"
    by (simp only: filter_keep_last)
  also have "\<dots> = go_upload_all uploadId (filter (\<lambda>p. in_int64 (fst p)) ups) s"
    by (rule go_upload_all_keep_last_valid [OF valid])
  also have "\<dots> = go_upload_all uploadId ups s"
    by (rule go_upload_all_filter [symmetric])
  finally show ?thesis .
qed

subsection \<open>The merge after a full history\<close>

lemma js_init_example:
  "js_init eng ex_env \<lparr>req_fileName = JStr ''a.bin'', req_fileSize = JNum (Num 10), req_chunkSize = JNum (Num 4)\<rparr> js_empty_state
     = (Init_ok ''u1'' ''1_a.bin'' (Num 3), js_ex_state)"
  by (simp add: js_init_def ex_env_def js_empty_state_def js_ex_state_def js_ex_session_def Let_def
      js_ceil_quot_def js_to_number_def js_parseInt_def js_template_def js_show_def js_safe_def
      show_int_def show_nat.simps digit_char_def)

lemma js_init_form_example:
  "js_init eng ex_env \<lparr>req_fileName = JStr ''a.bin'', req_fileSize = JStr ''10'', req_chunkSize = JStr ''4''\<rparr> js_empty_state
     = (Init_ok ''u1'' ''1_a.bin'' (Num 3), js_ex_state)"
  by (simp add: js_init_def ex_env_def js_empty_state_def js_ex_state_def js_ex_session_def Let_def
      js_ceil_quot_def js_to_number_def js_parseInt_def js_template_def js_show_def js_safe_def
      digit_string_def is_digit_def digits_val_def digit_val_def
      show_int_def show_nat.simps digit_char_def)


lemma go_init_example:
  "go_init ex_env (Some \<lparr>go_fileName = ''a.bin'', go_fileSize = 10, go_chunkSize = 4\<rparr>) go_empty_state
     = (Init_ok ''u1'' ''1_a.bin'' 3, go_ex_state)"
  by (simp add: ex_env_def go_empty_state_def go_ex_state_def go_ex_session_def Let_def
      go_totalChunks_def go_quot_def show_int_def show_nat.simps digit_char_def)

lemma js_plain_range: "0 \<le> i \<Longrightarrow> i < n \<Longrightarrow> n \<le> 2 ^ 53 \<Longrightarrow> js_plain (Num i)"
  by (simp add: js_safe_def)

lemma js_complete_concatenates:
  assumes "uploads s uploadId = Some u" and "uploadId \<noteq> []"
    and "totalChunks u = Num n" and "0 < n" and "n \<le> 2 ^ 53"
    and cover: "uploadedChunks u \<union> fst ` set ups = Num ` {0 ..< n}"
    and kept: "\<forall>i\<in>uploadedChunks u. objects s (js_chunkObjectName eng (objectName u) i) \<noteq> None"
    and "\<forall>k. \<not> faults (Get k)" and "\<not> faults (Put (objectName u))"
    and "\<not> faults (Copy (js_chunkObjectName eng (objectName u) (Num 0)) (objectName u))"
  shows "objects (snd (js_complete eng faults cfg uploadId (js_upload_all eng uploadId ups s))) (objectName u)
           = Some (concat (map (\<lambda>i. stored_bytes (js_upload_all eng uploadId ups s)
                                      (js_chunkObjectName eng (objectName u) (Num i))) [0 .. n - 1]))
       \<and> (\<forall>i\<in>fst ` set ups.
             stored_bytes (js_upload_all eng uploadId ups s) (js_chunkObjectName eng (objectName u) i)
               = latest ups i)
       \<and> ((\<forall>k. \<not> faults (Remove k)) \<longrightarrow>
            fst (js_complete eng faults cfg uploadId (js_upload_all eng uploadId ups s))
              = Complete_ok (downloadUrl cfg (objectName u)) (fileName u) (objectName u))"
proof -
  let ?key = "js_chunkObjectName eng (objectName u)"
  let ?s1 = "js_upload_all eng uploadId ups s"
  let ?u1 = "u\<lparr>uploadedChunks := uploadedChunks u \<union> fst ` set ups\<rparr>"
  have up: "uploads ?s1 uploadId = Some ?u1"
    by (simp add: js_upload_all_uploads [OF assms(1,2)])
  have tot: "totalChunks ?u1 = Num n" using assms(3) by simp
  have "card (Num ` {0 ..< n}) = card {0 ..< n}" by (rule card_image) (simp add: inj_on_def)
  then have full: "int (card (uploadedChunks ?u1)) = n" using assms(4) cover by simp
  have plain: "js_plain i" if "i \<in> uploadedChunks u \<union> fst ` set ups" for i
  proof -
    from that cover obtain k where "i = Num k" "0 \<le> k" "k < n" by auto
    with assms(5) show ?thesis by (simp add: js_safe_def)
  qed
  have inj: "inj_on ?key (insert j (fst ` set ups))" if "js_plain j" for j
    using that plain by (intro js_chunkObjectName_inj_on_plain) auto
  have fresh: "objects ?s1 (?key i) = Some (latest ups i)" if "i \<in> fst ` set ups" for i
  proof -
    from that have "js_plain i" by (simp add: plain)
    from foldl_parts_key [OF inj [OF this], where ?m0.0 = "objects s"] that show ?thesis
      by (simp add: js_upload_all_objects [OF assms(1,2)])
  qed
  have old: "objects ?s1 (?key i) = objects s (?key i)" if "i \<notin> fst ` set ups" "js_plain i" for i
    using foldl_parts_key [OF inj [OF that(2)], where ?m0.0 = "objects s"] that(1)
    by (simp add: js_upload_all_objects [OF assms(1,2)])
  have stored: "objects ?s1 (?key (Num i)) \<noteq> None" if "0 \<le> i" "i < n" for i
  proof (cases "Num i \<in> fst ` set ups")
    case True
    then show ?thesis by (simp add: fresh)
  next
    case False
    from that have "Num i \<in> Num ` {0 ..< n}" by simp
    with cover False have "Num i \<in> uploadedChunks u" by blast
    moreover from that assms(5) have "js_plain (Num i)" by (simp add: js_safe_def)
    ultimately show ?thesis using kept False by (simp add: old)
  qed
  have parts: "\<forall>i. 0 \<le> i \<and> i < n \<longrightarrow>
      objects ?s1 (js_chunkObjectName eng (objectName ?u1) (Num i)) \<noteq> None \<and>
      \<not> faults (Get (js_chunkObjectName eng (objectName ?u1) (Num i)))"
    using stored assms(8) by simp
  have nput: "\<not> faults (Put (objectName ?u1))" using assms(9) by simp
  have ncopy: "\<not> faults (Copy (js_chunkObjectName eng (objectName ?u1) (Num 0)) (objectName ?u1))"
    using assms(10) by simp
  have "the (objects ?s1 (?key (Num i))) = stored_bytes ?s1 (?key (Num i))"
    if "i \<in> set [0 .. n - 1]" for i
  proof -
    from that have "0 \<le> i" "i < n" by simp_all
    from stored [OF this] show ?thesis by (auto simp: stored_bytes_def)
  qed
  then have bytes: "map (\<lambda>i. the (objects ?s1 (?key (Num i)))) [0 .. n - 1]
      = map (\<lambda>i. stored_bytes ?s1 (?key (Num i))) [0 .. n - 1]"
    by (intro map_cong) simp_all
  have latest: "\<forall>i\<in>fst ` set ups. stored_bytes ?s1 (?key i) = latest ups i"
    using fresh by (simp add: stored_bytes_def)
  from js_complete_merges [OF up assms(2) tot full assms(4) parts nput ncopy, of cfg]
  have js: "objects (snd (js_complete eng faults cfg uploadId ?s1)) (objectName u)
           = Some (concat (map (\<lambda>i. stored_bytes ?s1 (?key (Num i))) [0 .. n - 1]))"
    and js_reply: "(\<forall>k. \<not> faults (Remove k)) \<longrightarrow>
            fst (js_complete eng faults cfg uploadId ?s1)
              = Complete_ok (downloadUrl cfg (objectName u)) (fileName u) (objectName u)"
    by (simp_all add: bytes)
  from js js_reply latest show ?thesis by (intro conjI)
qed

lemma go_complete_concatenates:
  assumes "uploads s uploadId = Some u" and "uploadId \<noteq> []"
    and "0 < totalChunks u" and "in_int64 (totalChunks u)"
    and cover: "uploadedChunks u \<union> fst ` set ups = {0 ..< totalChunks u}"
    and kept: "\<forall>i\<in>uploadedChunks u. objects s (chunkObjectName (objectName u) i) \<noteq> None"
    and "\<forall>k. \<not> faults (Get k)" and "\<not> faults (Put (objectName u))"
    and "\<not> faults (Copy (chunkObjectName (objectName u) 0) (objectName u))"
  shows "objects (snd (go_complete faults cfg uploadId (go_upload_all uploadId ups s))) (objectName u)
           = Some (concat (map (\<lambda>i. stored_bytes (go_upload_all uploadId ups s)
                                      (chunkObjectName (objectName u) i)) [0 .. totalChunks u - 1]))
       \<and> (\<forall>i\<in>fst ` set ups.
             stored_bytes (go_upload_all uploadId ups s) (chunkObjectName (objectName u) i)
               = latest ups i)
       \<and> fst (go_complete faults cfg uploadId (go_upload_all uploadId ups s))
           = Complete_ok (downloadUrl cfg (objectName u)) (fileName u) (objectName u)"
proof -
  let ?n = "totalChunks u"
  let ?key = "chunkObjectName (objectName u)"
  let ?s1 = "go_upload_all uploadId ups s"
  let ?u1 = "u\<lparr>uploadedChunks := uploadedChunks u \<union> fst ` set ups\<rparr>"
  have valid: "\<forall>p\<in>set ups. in_int64 (fst p)"
  proof
    fix p assume "p \<in> set ups"
    then have "fst p \<in> uploadedChunks u \<union> fst ` set ups" by simp
    with cover have "0 \<le> fst p" "fst p < ?n" by simp_all
    with assms(4) show "in_int64 (fst p)" by (simp add: in_int64_def)
  qed
  have up: "uploads ?s1 uploadId = Some ?u1"
    by (simp add: go_upload_all_uploads [OF assms(1,2) valid])
  have all: "uploadedChunks ?u1 = {0 ..< ?n}" using cover by simp
  have full: "int (card (uploadedChunks ?u1)) = totalChunks ?u1"
    using assms(3) by (simp only: all) simp
  have pos: "0 < totalChunks ?u1" using assms(3) by simp
  have inj: "inj_on ?key A" for A
    by (rule inj_onI) (rule chunkObjectName_inj)
  have fresh: "objects ?s1 (?key i) = Some (latest ups i)" if "i \<in> fst ` set ups" for i
    using foldl_parts_key [OF inj, where j = i and ups = ups and ?m0.0 = "objects s"] that
    by (simp add: go_upload_all_objects [OF assms(1,2) valid])
  have old: "objects ?s1 (?key i) = objects s (?key i)" if "i \<notin> fst ` set ups" for i
    using foldl_parts_key [OF inj, where j = i and ups = ups and ?m0.0 = "objects s"] that
    by (simp add: go_upload_all_objects [OF assms(1,2) valid])
  have stored: "objects ?s1 (?key i) \<noteq> None" if "0 \<le> i" "i < ?n" for i
  proof (cases "i \<in> fst ` set ups")
    case True
    then show ?thesis by (simp add: fresh)
  next
    case False
    with that cover have "i \<in> uploadedChunks u" by auto
    with kept False show ?thesis by (simp add: old)
  qed
  have parts: "\<forall>i. 0 \<le> i \<and> i < totalChunks ?u1 \<longrightarrow>
      objects ?s1 (chunkObjectName (objectName ?u1) i) \<noteq> None \<and>
      \<not> faults (Get (chunkObjectName (objectName ?u1) i))"
    using stored assms(7) by simp
  have nput: "\<not> faults (Put (objectName ?u1))" using assms(8) by simp
  have ncopy: "\<not> faults (Copy (chunkObjectName (objectName ?u1) 0) (objectName ?u1))"
    using assms(9) by simp
  have "the (objects ?s1 (?key i)) = stored_bytes ?s1 (?key i)"
    if "i \<in> set [0 .. ?n - 1]" for i
  proof -
    from that have "0 \<le> i" "i < ?n" by simp_all
    from stored [OF this] show ?thesis by (auto simp: stored_bytes_def)
  qed
  then have bytes: "map (\<lambda>i. the (objects ?s1 (?key i))) [0 .. ?n - 1]
      = map (\<lambda>i. stored_bytes ?s1 (?key i)) [0 .. ?n - 1]"
    by (intro map_cong) simp_all
  have latest: "\<forall>i\<in>fst ` set ups. stored_bytes ?s1 (?key i) = latest ups i"
    using fresh by (simp add: stored_bytes_def)
  from go_complete_merges [OF up assms(2) full pos parts nput ncopy, of cfg]
  have go: "objects (snd (go_complete faults cfg uploadId ?s1)) (objectName u)
           = Some (concat (map (\<lambda>i. stored_bytes ?s1 (?key i)) [0 .. ?n - 1]))"
    and go_reply: "fst (go_complete faults cfg uploadId ?s1)
              = Complete_ok (downloadUrl cfg (objectName u)) (fileName u) (objectName u)"
    by (simp_all add: bytes)
  from go go_reply latest show ?thesis by (intro conjI)
qed

subsection \<open>The running example\<close>

lemma js_ex_part_names:
  "js_chunkObjectName eng ''1_a.bin'' (Num 0) = ''1_a.bin.part0''"
  "js_chunkObjectName eng ''1_a.bin'' (Num 1) = ''1_a.bin.part1''"
  "js_chunkObjectName eng ''1_a.bin'' (Num 2) = ''1_a.bin.part2''"
  "js_chunkObjectName eng ''1_a.bin'' (Num 7) = ''1_a.bin.part7''"
  by (simp_all add: js_chunkObjectName_def js_show_def js_safe_def show_int_def show_nat.simps digit_char_def)

lemma go_ex_part_names:
  "chunkObjectName ''1_a.bin'' 0 = ''1_a.bin.part0''"
  "chunkObjectName ''1_a.bin'' 1 = ''1_a.bin.part1''"
  "chunkObjectName ''1_a.bin'' 2 = ''1_a.bin.part2''"
  "chunkObjectName ''1_a.bin'' 7 = ''1_a.bin.part7''"
  by (simp_all add: chunkObjectName_def show_int_def show_nat.simps digit_char_def)

lemma js_ex_session_stored: "uploads js_ex_state ''u1'' = Some js_ex_session"
  by (simp add: js_ex_state_def)

lemma go_ex_session_stored: "uploads go_ex_state ''u1'' = Some go_ex_session"
  by (simp add: go_ex_state_def)

lemma go_ex_ups_valid: "\<forall>p\<in>set go_ex_ups. in_int64 (fst p)"
  by (simp add: go_ex_ups_def in_int64_def)

lemma go_ex_stray_ups_valid: "\<forall>p\<in>set go_ex_stray_ups. in_int64 (fst p)"
  by (simp add: go_ex_stray_ups_def in_int64_def)

lemma go_ex_ups_cover:
  "uploadedChunks go_ex_session \<union> fst ` set go_ex_ups = {0 ..< totalChunks go_ex_session}"
  by (auto simp: go_ex_ups_def go_ex_session_def)

lemma js_ex_ups_cover:
  "uploadedChunks js_ex_session \<union> fst ` set js_ex_ups = Num ` {0 ..< 3}"
proof -
  have "{0 ..< 3 :: int} = {0, 1, 2}" by auto
  then show ?thesis by (auto simp: js_ex_ups_def go_ex_ups_def js_ex_session_def)
qed

lemma js_ex_full_session:
  "uploads (js_upload_all eng ''u1'' js_ex_ups js_ex_state) ''u1''
     = Some (js_ex_session\<lparr>uploadedChunks := {Num 0, Num 1, Num 2}\<rparr>)"
proof -
  have b: "''u1'' \<noteq> []" by simp
  show ?thesis
    by (simp only: js_upload_all_uploads [OF js_ex_session_stored b])
      (auto simp: js_ex_ups_def go_ex_ups_def js_ex_session_def)
qed

lemma go_ex_full_session:
  "uploads (go_upload_all ''u1'' go_ex_ups go_ex_state) ''u1''
     = Some (go_ex_session\<lparr>uploadedChunks := {0, 1, 2}\<rparr>)"
proof -
  have b: "''u1'' \<noteq> []" by simp
  show ?thesis
    by (simp only: go_upload_all_uploads [OF go_ex_session_stored b go_ex_ups_valid])
      (auto simp: go_ex_ups_def go_ex_session_def)
qed

lemma js_ex_full_objects:
  "objects (js_upload_all eng ''u1'' js_ex_ups js_ex_state) ''1_a.bin.part0'' = Some [1, 2]"
  "objects (js_upload_all eng ''u1'' js_ex_ups js_ex_state) ''1_a.bin.part1'' = Some [3, 4]"
  "objects (js_upload_all eng ''u1'' js_ex_ups js_ex_state) ''1_a.bin.part2'' = Some [5]"
proof -
  have b: "''u1'' \<noteq> []" by simp
  have o: "objectName js_ex_session = ''1_a.bin''" "objects js_ex_state = Map.empty"
    by (simp_all add: js_ex_session_def js_ex_state_def)
  have "objects (js_upload_all eng ''u1'' js_ex_ups js_ex_state)
      = foldl (store_part (js_chunkObjectName eng ''1_a.bin'')) Map.empty js_ex_ups"
    by (simp only: js_upload_all_objects [OF js_ex_session_stored b] o)
  then show "objects (js_upload_all eng ''u1'' js_ex_ups js_ex_state) ''1_a.bin.part0'' = Some [1, 2]"
    "objects (js_upload_all eng ''u1'' js_ex_ups js_ex_state) ''1_a.bin.part1'' = Some [3, 4]"
    "objects (js_upload_all eng ''u1'' js_ex_ups js_ex_state) ''1_a.bin.part2'' = Some [5]"
    by (simp_all add: js_ex_ups_def go_ex_ups_def store_part_apply js_ex_part_names)
qed

lemma go_ex_full_objects:
  "objects (go_upload_all ''u1'' go_ex_ups go_ex_state) ''1_a.bin.part0'' = Some [1, 2]"
  "objects (go_upload_all ''u1'' go_ex_ups go_ex_state) ''1_a.bin.part1'' = Some [3, 4]"
  "objects (go_upload_all ''u1'' go_ex_ups go_ex_state) ''1_a.bin.part2'' = Some [5]"
proof -
  have b: "''u1'' \<noteq> []" by simp
  have o: "objectName go_ex_session = ''1_a.bin''" "objects go_ex_state = Map.empty"
    by (simp_all add: go_ex_session_def go_ex_state_def)
  have "objects (go_upload_all ''u1'' go_ex_ups go_ex_state)
      = foldl (store_part (chunkObjectName ''1_a.bin'')) Map.empty go_ex_ups"
    by (simp only: go_upload_all_objects [OF go_ex_session_stored b go_ex_ups_valid] o)
  then show "objects (go_upload_all ''u1'' go_ex_ups go_ex_state) ''1_a.bin.part0'' = Some [1, 2]"
    "objects (go_upload_all ''u1'' go_ex_ups go_ex_state) ''1_a.bin.part1'' = Some [3, 4]"
    "objects (go_upload_all ''u1'' go_ex_ups go_ex_state) ''1_a.bin.part2'' = Some [5]"
    by (simp_all add: go_ex_ups_def store_part_apply go_ex_part_names)
qed

lemma js_ex_orphan_state:
  "uploads (js_upload_all eng ''u1'' js_ex_stray_ups js_ex_state) ''u1''
     = Some (js_ex_session\<lparr>uploadedChunks := {Num 0, Num 7}\<rparr>)"
  "objects (js_upload_all eng ''u1'' js_ex_stray_ups js_ex_state) ''1_a.bin.part7'' = Some [8]"
  "objects (js_upload_all eng ''u1'' js_ex_stray_ups js_ex_state) ''1_a.bin.part0'' = Some [1, 2]"
proof -
  have b: "''u1'' \<noteq> []" by simp
  have o: "objectName js_ex_session = ''1_a.bin''" "objects js_ex_state = Map.empty"
    by (simp_all add: js_ex_session_def js_ex_state_def)
  show "uploads (js_upload_all eng ''u1'' js_ex_stray_ups js_ex_state) ''u1''
     = Some (js_ex_session\<lparr>uploadedChunks := {Num 0, Num 7}\<rparr>)"
    by (simp only: js_upload_all_uploads [OF js_ex_session_stored b])
      (auto simp: js_ex_stray_ups_def go_ex_stray_ups_def js_ex_session_def)
  have "objects (js_upload_all eng ''u1'' js_ex_stray_ups js_ex_state)
      = foldl (store_part (js_chunkObjectName eng ''1_a.bin'')) Map.empty js_ex_stray_ups"
    by (simp only: js_upload_all_objects [OF js_ex_session_stored b] o)
  then show "objects (js_upload_all eng ''u1'' js_ex_stray_ups js_ex_state) ''1_a.bin.part7'' = Some [8]"
    "objects (js_upload_all eng ''u1'' js_ex_stray_ups js_ex_state) ''1_a.bin.part0'' = Some [1, 2]"
    by (simp_all add: js_ex_stray_ups_def go_ex_stray_ups_def store_part_apply js_ex_part_names)
qed

lemma go_ex_orphan_state:
  "uploads (go_upload_all ''u1'' go_ex_stray_ups go_ex_state) ''u1''
     = Some (go_ex_session\<lparr>uploadedChunks := {0, 7}\<rparr>)"
  "objects (go_upload_all ''u1'' go_ex_stray_ups go_ex_state) ''1_a.bin.part7'' = Some [8]"
  "objects (go_upload_all ''u1'' go_ex_stray_ups go_ex_state) ''1_a.bin.part0'' = Some [1, 2]"
proof -
  have b: "''u1'' \<noteq> []" by simp
  have o: "objectName go_ex_session = ''1_a.bin''" "objects go_ex_state = Map.empty"
    by (simp_all add: go_ex_session_def go_ex_state_def)
  show "uploads (go_upload_all ''u1'' go_ex_stray_ups go_ex_state) ''u1''
     = Some (go_ex_session\<lparr>uploadedChunks := {0, 7}\<rparr>)"
    by (simp only: go_upload_all_uploads [OF go_ex_session_stored b go_ex_stray_ups_valid])
      (auto simp: go_ex_stray_ups_def go_ex_session_def)
  have "objects (go_upload_all ''u1'' go_ex_stray_ups go_ex_state)
      = foldl (store_part (chunkObjectName ''1_a.bin'')) Map.empty go_ex_stray_ups"
    by (simp only: go_upload_all_objects [OF go_ex_session_stored b go_ex_stray_ups_valid] o)
  then show "objects (go_upload_all ''u1'' go_ex_stray_ups go_ex_state) ''1_a.bin.part7'' = Some [8]"
    "objects (go_upload_all ''u1'' go_ex_stray_ups go_ex_state) ''1_a.bin.part0'' = Some [1, 2]"
    by (simp_all add: go_ex_stray_ups_def store_part_apply go_ex_part_names)
qed

subsection \<open>Part keys and the pattern\<close>

lemma js_chunkObjectName_safe: "js_safe k \<Longrightarrow> js_chunkObjectName eng obj (Num k) = chunkObjectName obj k"
  by (simp add: js_chunkObjectName_def chunkObjectName_def js_show_safe)

lemma matches_chunkObjectName: "0 \<le> i \<Longrightarrow> matches_part_pattern (chunkObjectName obj i)"
  unfolding chunkObjectName_def show_int_def
  by (simp add: matches_part_patternI show_nat_nonempty show_nat_digits del: append.simps)

lemma stamped_name:
  assumes "\<not> matches_part_pattern f"
  shows "\<not> matches_part_pattern (stamp @ ''_'' @ f)"
    and "0 \<le> i \<Longrightarrow> stamp @ ''_'' @ f \<noteq> chunkObjectName obj i"
proof -
  show a: "\<not> matches_part_pattern (stamp @ ''_'' @ f)"
    using assms pattern_of_prefixed by blast
  assume "0 \<le> i"
  then have "matches_part_pattern (chunkObjectName obj i)" by (rule matches_chunkObjectName)
  with a show "stamp @ ''_'' @ f \<noteq> chunkObjectName obj i" by auto
qed

lemma js_visited_set:
  "js_loop_ends bound \<Longrightarrow>
   set (js_visited eng obj bound)
     = (\<lambda>i. js_chunkObjectName eng obj (Num i)) ` {i. 0 \<le> i \<and> js_less i bound}"
proof (cases bound)
  case (Num n)
  have "{0 ..< n} = {i. 0 \<le> i \<and> i < n}" by auto
  with Num show ?thesis by (simp add: set_js_chunkObjects)
qed simp_all

lemma js_unvisited_key:
  assumes "js_loop_ends bound" and "js_plain j" and "\<not> js_in_range j bound"
  shows "js_chunkObjectName eng obj j \<notin> set (js_visited eng obj bound)"
proof
  assume "js_chunkObjectName eng obj j \<in> set (js_visited eng obj bound)"
  with assms(1) obtain i where i: "0 \<le> i" "js_less i bound"
    and eq: "js_chunkObjectName eng obj j = js_chunkObjectName eng obj (Num i)"
    by (auto simp: js_visited_set)
  from i assms(1) have "js_plain (Num i)" by (cases bound) (simp_all add: js_safe_def)
  from js_chunkObjectName_inj_plain [OF assms(2) this eq] have "j = Num i" .
  with i assms(3) show False by simp
qed

section \<open>Claims\<close>

text \<open>
  C1. Take a session and any history of chunk uploads to it, in whatever order and with
  whatever retries, after which the uploaded indices are exactly \<open>0 .. totalChunks - 1\<close>
  (the parts of indices uploaded before the history being still stored). Then complete
  writes under \<open>objectName\<close> the concatenation of the stored part contents in ascending
  index order, and the stored content of every index the history uploaded is what its
  last upload sent. The store does not fail on the reads, the write and the copy of the
  merge; a part that cannot be removed afterwards does not change the final object.
  First server.js (\<open>totalChunks\<close> a positive integer of at most \<open>2 ^ 53\<close>), then main.go.
\<close>

theorem complete_concatenates_in_index_order:
  "(uploads s uploadId = Some u \<and> uploadId \<noteq> []
      \<and> totalChunks u = Num n \<and> 0 < n \<and> n \<le> 2 ^ 53
      \<and> uploadedChunks u \<union> fst ` set ups = Num ` {0 ..< n}
      \<and> (\<forall>i\<in>uploadedChunks u. objects s (js_chunkObjectName eng (objectName u) i) \<noteq> None)
      \<and> (\<forall>k. \<not> faults (Get k)) \<and> \<not> faults (Put (objectName u))
      \<and> \<not> faults (Copy (js_chunkObjectName eng (objectName u) (Num 0)) (objectName u))
    \<longrightarrow> objects (snd (js_complete eng faults cfg uploadId (js_upload_all eng uploadId ups s))) (objectName u)
           = Some (concat (map (\<lambda>i. stored_bytes (js_upload_all eng uploadId ups s)
                                      (js_chunkObjectName eng (objectName u) (Num i))) [0 .. n - 1]))
       \<and> (\<forall>i\<in>fst ` set ups.
             stored_bytes (js_upload_all eng uploadId ups s) (js_chunkObjectName eng (objectName u) i)
               = latest ups i)
       \<and> ((\<forall>k. \<not> faults (Remove k)) \<longrightarrow>
            fst (js_complete eng faults cfg uploadId (js_upload_all eng uploadId ups s))
              = Complete_ok (downloadUrl cfg (objectName u)) (fileName u) (objectName u)))
   \<and> (uploads t uploadId = Some v \<and> uploadId \<noteq> []
      \<and> 0 < totalChunks v \<and> in_int64 (totalChunks v)
      \<and> uploadedChunks v \<union> fst ` set gups = {0 ..< totalChunks v}
      \<and> (\<forall>i\<in>uploadedChunks v. objects t (chunkObjectName (objectName v) i) \<noteq> None)
      \<and> (\<forall>k. \<not> faults (Get k)) \<and> \<not> faults (Put (objectName v))
      \<and> \<not> faults (Copy (chunkObjectName (objectName v) 0) (objectName v))
    \<longrightarrow> objects (snd (go_complete faults cfg uploadId (go_upload_all uploadId gups t))) (objectName v)
           = Some (concat (map (\<lambda>i. stored_bytes (go_upload_all uploadId gups t)
                                      (chunkObjectName (objectName v) i)) [0 .. totalChunks v - 1]))
       \<and> (\<forall>i\<in>fst ` set gups.
             stored_bytes (go_upload_all uploadId gups t) (chunkObjectName (objectName v) i)
               = latest gups i)
       \<and> fst (go_complete faults cfg uploadId (go_upload_all uploadId gups t))
           = Complete_ok (downloadUrl cfg (objectName v)) (fileName v) (objectName v))"
proof (rule conjI; rule impI; elim conjE)
  assume "uploads s uploadId = Some u" "uploadId \<noteq> []" "totalChunks u = Num n" "0 < n" "n \<le> 2 ^ 53"
    "uploadedChunks u \<union> fst ` set ups = Num ` {0 ..< n}"
    "\<forall>i\<in>uploadedChunks u. objects s (js_chunkObjectName eng (objectName u) i) \<noteq> None"
    "\<forall>k. \<not> faults (Get k)" "\<not> faults (Put (objectName u))"
    "\<not> faults (Copy (js_chunkObjectName eng (objectName u) (Num 0)) (objectName u))"
  then show "objects (snd (js_complete eng faults cfg uploadId (js_upload_all eng uploadId ups s))) (objectName u)
           = Some (concat (map (\<lambda>i. stored_bytes (js_upload_all eng uploadId ups s)
                                      (js_chunkObjectName eng (objectName u) (Num i))) [0 .. n - 1]))
       \<and> (\<forall>i\<in>fst ` set ups.
             stored_bytes (js_upload_all eng uploadId ups s) (js_chunkObjectName eng (objectName u) i)
               = latest ups i)
       \<and> ((\<forall>k. \<not> faults (Remove k)) \<longrightarrow>
            fst (js_complete eng faults cfg uploadId (js_upload_all eng uploadId ups s))
              = Complete_ok (downloadUrl cfg (objectName u)) (fileName u) (objectName u))"
    by (rule js_complete_concatenates)
next
  assume "uploads t uploadId = Some v" "uploadId \<noteq> []" "0 < totalChunks v" "in_int64 (totalChunks v)"
    "uploadedChunks v \<union> fst ` set gups = {0 ..< totalChunks v}"
    "\<forall>i\<in>uploadedChunks v. objects t (chunkObjectName (objectName v) i) \<noteq> None"
    "\<forall>k. \<not> faults (Get k)" "\<not> faults (Put (objectName v))"
    "\<not> faults (Copy (chunkObjectName (objectName v) 0) (objectName v))"
  then show "objects (snd (go_complete faults cfg uploadId (go_upload_all uploadId gups t))) (objectName v)
           = Some (concat (map (\<lambda>i. stored_bytes (go_upload_all uploadId gups t)
                                      (chunkObjectName (objectName v) i)) [0 .. totalChunks v - 1]))
       \<and> (\<forall>i\<in>fst ` set gups.
             stored_bytes (go_upload_all uploadId gups t) (chunkObjectName (objectName v) i)
               = latest gups i)
       \<and> fst (go_complete faults cfg uploadId (go_upload_all uploadId gups t))
           = Complete_ok (downloadUrl cfg (objectName v)) (fileName v) (objectName v)"
    by (rule go_complete_concatenates)
qed

theorem complete_concatenates_in_index_order_witness:
  "objects (snd (js_complete ex_engine no_faults ex_cfg ''u1''
       (js_upload_all ex_engine ''u1'' js_ex_ups js_ex_state))) ''1_a.bin''
     = Some [1, 2, 3, 4, 5]
   \<and> objects (snd (go_complete no_faults ex_cfg ''u1'' (go_upload_all ''u1'' go_ex_ups go_ex_state))) ''1_a.bin''
     = Some [1, 2, 3, 4, 5]"
proof -
  have js: "uploads js_ex_state ''u1'' = Some js_ex_session \<and> ''u1'' \<noteq> []
      \<and> totalChunks js_ex_session = Num 3 \<and> 0 < (3 :: int) \<and> (3 :: int) \<le> 2 ^ 53
      \<and> uploadedChunks js_ex_session \<union> fst ` set js_ex_ups = Num ` {0 ..< 3}
      \<and> (\<forall>i\<in>uploadedChunks js_ex_session.
            objects js_ex_state (js_chunkObjectName ex_engine (objectName js_ex_session) i) \<noteq> None)
      \<and> (\<forall>k. \<not> no_faults (Get k)) \<and> \<not> no_faults (Put (objectName js_ex_session))
      \<and> \<not> no_faults (Copy (js_chunkObjectName ex_engine (objectName js_ex_session) (Num 0))
                           (objectName js_ex_session))"
    by (simp add: js_ex_session_stored js_ex_ups_cover no_faults_def) (simp add: js_ex_session_def)
  have go: "uploads go_ex_state ''u1'' = Some go_ex_session \<and> ''u1'' \<noteq> []
      \<and> 0 < totalChunks go_ex_session \<and> in_int64 (totalChunks go_ex_session)
      \<and> uploadedChunks go_ex_session \<union> fst ` set go_ex_ups = {0 ..< totalChunks go_ex_session}
      \<and> (\<forall>i\<in>uploadedChunks go_ex_session.
            objects go_ex_state (chunkObjectName (objectName go_ex_session) i) \<noteq> None)
      \<and> (\<forall>k. \<not> no_faults (Get k)) \<and> \<not> no_faults (Put (objectName go_ex_session))
      \<and> \<not> no_faults (Copy (chunkObjectName (objectName go_ex_session) 0) (objectName go_ex_session))"
    by (simp add: go_ex_session_stored go_ex_ups_cover no_faults_def) (simp add: go_ex_session_def in_int64_def)
  have o: "objectName js_ex_session = ''1_a.bin''" "objectName go_ex_session = ''1_a.bin''"
    "totalChunks go_ex_session = 3"
    by (simp_all add: js_ex_session_def go_ex_session_def)
  have js_bytes: "concat (map (\<lambda>i. stored_bytes (js_upload_all ex_engine ''u1'' js_ex_ups js_ex_state)
        (js_chunkObjectName ex_engine ''1_a.bin'' (Num i))) [0 .. 3 - 1]) = [1, 2, 3, 4, 5]"
    by (simp add: upto_rec1 js_ex_part_names stored_bytes_def js_ex_full_objects)
  have go_bytes: "concat (map (\<lambda>i. stored_bytes (go_upload_all ''u1'' go_ex_ups go_ex_state)
        (chunkObjectName ''1_a.bin'' i)) [0 .. 3 - 1]) = [1, 2, 3, 4, 5]"
    by (simp add: upto_rec1 go_ex_part_names stored_bytes_def go_ex_full_objects)
  note th = complete_concatenates_in_index_order
    [where s = js_ex_state and uploadId = "''u1''" and u = js_ex_session and n = 3 and ups = js_ex_ups
      and eng = ex_engine and faults = no_faults and cfg = ex_cfg
      and t = go_ex_state and v = go_ex_session and gups = go_ex_ups]
  from th [THEN conjunct1, THEN mp, OF js, THEN conjunct1]
    th [THEN conjunct2, THEN mp, OF go, THEN conjunct1]
  show ?thesis by (simp only: o js_bytes go_bytes simp_thms)
qed

text \<open>
  C2. For an existing session with fewer uploaded indices than \<open>totalChunks\<close>, complete
  replies with the conflict (HTTP 400) that carries the uploaded count and \<open>totalChunks\<close>,
  and leaves the registry and the bucket exactly as they were: the session is still there
  and the status handler reports the same count. In server.js the comparison is the one
  of JavaScript numbers, which holds of every count when \<open>totalChunks\<close> is infinite. First
  server.js, then main.go.
\<close>

theorem complete_before_all_chunks_is_conflict:
  "(uploads s uploadId = Some u \<and> uploadId \<noteq> []
      \<and> js_less (int (card (uploadedChunks u))) (totalChunks u)
    \<longrightarrow> js_complete eng faults cfg uploadId s = (Incomplete (card (uploadedChunks u)) (totalChunks u), s)
       \<and> http_status (Incomplete (card (uploadedChunks u)) (totalChunks u)) = 400
       \<and> js_status uploadId s = Status_ok uploadId (fileName u) (card (uploadedChunks u)) (totalChunks u))
   \<and> (uploads t uploadId = Some v \<and> uploadId \<noteq> []
      \<and> int (card (uploadedChunks v)) < totalChunks v
    \<longrightarrow> go_complete faults cfg uploadId t = (Incomplete (card (uploadedChunks v)) (totalChunks v), t)
       \<and> http_status (Incomplete (card (uploadedChunks v)) (totalChunks v)) = 400
       \<and> go_status uploadId t = Status_ok uploadId (fileName v) (card (uploadedChunks v)) (totalChunks v))"
proof (rule conjI; rule impI; elim conjE)
  assume a: "uploads s uploadId = Some u" "uploadId \<noteq> []"
    and lt: "js_less (int (card (uploadedChunks u))) (totalChunks u)"
  from lt have "totalChunks u \<noteq> Num (int (card (uploadedChunks u)))" by auto
  from js_complete_incomplete [OF a this] a(1)
  show "js_complete eng faults cfg uploadId s = (Incomplete (card (uploadedChunks u)) (totalChunks u), s)
       \<and> http_status (Incomplete (card (uploadedChunks u)) (totalChunks u)) = 400
       \<and> js_status uploadId s = Status_ok uploadId (fileName u) (card (uploadedChunks u)) (totalChunks u)"
    by (simp add: js_status_def)
next
  assume a: "uploads t uploadId = Some v" "uploadId \<noteq> []"
    and lt: "int (card (uploadedChunks v)) < totalChunks v"
  from go_complete_incomplete [OF a lt] a(1) lt
  show "go_complete faults cfg uploadId t = (Incomplete (card (uploadedChunks v)) (totalChunks v), t)
       \<and> http_status (Incomplete (card (uploadedChunks v)) (totalChunks v)) = 400
       \<and> go_status uploadId t = Status_ok uploadId (fileName v) (card (uploadedChunks v)) (totalChunks v)"
    by (simp add: go_status_def)
qed

theorem complete_before_all_chunks_is_conflict_witness:
  "js_complete ex_engine no_faults ex_cfg ''u1'' js_ex_state = (Incomplete 0 (Num 3), js_ex_state)
   \<and> js_status ''u1'' js_ex_state = Status_ok ''u1'' (JStr ''a.bin'') 0 (Num 3)
   \<and> js_complete ex_engine no_faults ex_cfg ''u1'' js_inf_state = (Incomplete 0 PInf, js_inf_state)
   \<and> go_complete no_faults ex_cfg ''u1'' go_ex_state = (Incomplete 0 3, go_ex_state)
   \<and> go_status ''u1'' go_ex_state = Status_ok ''u1'' ''a.bin'' 0 3"
proof -
  have js: "uploads js_ex_state ''u1'' = Some js_ex_session \<and> ''u1'' \<noteq> []
      \<and> js_less (int (card (uploadedChunks js_ex_session))) (totalChunks js_ex_session)"
    by (simp add: js_ex_session_stored) (simp add: js_ex_session_def)
  have inf: "uploads js_inf_state ''u1'' = Some js_inf_session \<and> ''u1'' \<noteq> []
      \<and> js_less (int (card (uploadedChunks js_inf_session))) (totalChunks js_inf_session)"
    by (simp add: js_inf_state_def) (simp add: js_inf_session_def)
  have go: "uploads go_ex_state ''u1'' = Some go_ex_session \<and> ''u1'' \<noteq> []
      \<and> int (card (uploadedChunks go_ex_session)) < totalChunks go_ex_session"
    by (simp add: go_ex_session_stored) (simp add: go_ex_session_def)
  from complete_before_all_chunks_is_conflict
    [where s = js_ex_state and uploadId = "''u1''" and u = js_ex_session and eng = ex_engine
      and faults = no_faults and cfg = ex_cfg and t = go_ex_state and v = go_ex_session,
      THEN conjunct1, THEN mp, OF js]
  have a: "js_complete ex_engine no_faults ex_cfg ''u1'' js_ex_state = (Incomplete 0 (Num 3), js_ex_state)
     \<and> js_status ''u1'' js_ex_state = Status_ok ''u1'' (JStr ''a.bin'') 0 (Num 3)"
    by (simp add: js_ex_session_def)
  from complete_before_all_chunks_is_conflict
    [where s = js_inf_state and uploadId = "''u1''" and u = js_inf_session and eng = ex_engine
      and faults = no_faults and cfg = ex_cfg and t = go_ex_state and v = go_ex_session,
      THEN conjunct1, THEN mp, OF inf]
  have b: "js_complete ex_engine no_faults ex_cfg ''u1'' js_inf_state = (Incomplete 0 PInf, js_inf_state)"
    by (simp add: js_inf_session_def)
  from complete_before_all_chunks_is_conflict
    [where s = js_ex_state and uploadId = "''u1''" and u = js_ex_session and eng = ex_engine
      and faults = no_faults and cfg = ex_cfg and t = go_ex_state and v = go_ex_session,
      THEN conjunct2, THEN mp, OF go]
  have c: "go_complete no_faults ex_cfg ''u1'' go_ex_state = (Incomplete 0 3, go_ex_state)
     \<and> go_status ''u1'' go_ex_state = Status_ok ''u1'' ''a.bin'' 0 3"
    by (simp add: go_ex_session_def)
  from a b c show ?thesis by simp
qed

text \<open>
  C3. The list of GET /api/files must not contain a key of the form \<^verbatim>\<open>*.part<digits>\<close>.
  The handler of server.js lists every object of the bucket: after one chunk of the
  example has been uploaded its part key is stored, matches the pattern and is listed.
  The Go handler skips that key (lemma \<open>go_listFiles_no_part\<close> shows it for every
  stream).
\<close>

theorem js_listFiles_lists_part_keys:
  "objects (snd (js_uploadChunk ex_engine no_faults (chunk_req ''u1'' (Num 0) [1, 2]) js_ex_state)) ''1_a.bin.part0''
     = Some [1, 2]
   \<and> matches_part_pattern ''1_a.bin.part0''
   \<and> js_listFiles ex_cfg [Listed \<lparr>obj_key = ''1_a.bin.part0'', obj_size = 2, obj_lastModified = 1\<rparr>]
       = Files_ok [\<lparr>entry_name = ''1_a.bin.part0'', entry_size = 2, entry_lastModified = 1,
                    entry_url = ''http://localhost:9000/uploads/1_a.bin.part0''\<rparr>]
   \<and> go_listFiles ex_cfg [Listed \<lparr>obj_key = ''1_a.bin.part0'', obj_size = 2, obj_lastModified = 1\<rparr>]
       = Files_ok []"
  by (simp add: js_uploadChunk_def chunk_req_def put_object_def no_faults_def js_ex_state_def
      js_ex_session_def js_ex_part_names Let_def matches_part_pattern_def is_digit_def
      js_listFiles_def go_listFiles_def file_of_def downloadUrl_def ex_cfg_def
      show_int_def show_nat.simps digit_char_def)

text \<open>
  C4, as amended. uploadChunk applies no range check to the chunk index: for an existing
  session and any index, inside \<open>[0, totalChunks)\<close> or not, whose store write succeeds, it
  writes the part under \<open>objectName.part<index>\<close>, inserts the index into
  \<open>uploadedChunks\<close> and replies with success. So the members of \<open>uploadedChunks\<close> all lie
  in the range after the call exactly when they did before and the uploaded index does.
  First server.js (any number that \<^verbatim>\<open>parseInt\<close> yields), then main.go (an index that fits
  its \<^verbatim>\<open>int\<close>).
\<close>

theorem uploadChunk_accepts_any_index:
  "(uploads s uploadId = Some u \<and> uploadId \<noteq> []
      \<and> \<not> faults (Put (js_chunkObjectName eng (objectName u) i))
    \<longrightarrow> js_uploadChunk eng faults (chunk_req uploadId i b) s =
           (Chunk_ok i (card (insert i (uploadedChunks u))) (totalChunks u),
            s\<lparr>uploads := (uploads s)(uploadId \<mapsto> u\<lparr>uploadedChunks := insert i (uploadedChunks u)\<rparr>),
              objects := (objects s)(js_chunkObjectName eng (objectName u) i \<mapsto> b)\<rparr>)
       \<and> ((\<forall>k\<in>insert i (uploadedChunks u). js_in_range k (totalChunks u))
            \<longleftrightarrow> js_in_range i (totalChunks u) \<and> (\<forall>k\<in>uploadedChunks u. js_in_range k (totalChunks u))))
   \<and> (uploads t uploadId = Some v \<and> uploadId \<noteq> [] \<and> in_int64 j
      \<and> \<not> faults (Put (chunkObjectName (objectName v) j))
    \<longrightarrow> go_uploadChunk faults (chunk_req uploadId j b) t =
           (Chunk_ok j (card (insert j (uploadedChunks v))) (totalChunks v),
            t\<lparr>uploads := (uploads t)(uploadId \<mapsto> v\<lparr>uploadedChunks := insert j (uploadedChunks v)\<rparr>),
              objects := (objects t)(chunkObjectName (objectName v) j \<mapsto> b)\<rparr>)
       \<and> ((\<forall>k\<in>insert j (uploadedChunks v). 0 \<le> k \<and> k < totalChunks v)
            \<longleftrightarrow> (0 \<le> j \<and> j < totalChunks v) \<and> (\<forall>k\<in>uploadedChunks v. 0 \<le> k \<and> k < totalChunks v)))"
proof (rule conjI; rule impI; elim conjE)
  assume a: "uploads s uploadId = Some u" "uploadId \<noteq> []"
    "\<not> faults (Put (js_chunkObjectName eng (objectName u) i))"
  from js_uploadChunk_ok [where faults = faults and i = i and b = b and eng = eng, OF a]
  show "js_uploadChunk eng faults (chunk_req uploadId i b) s =
           (Chunk_ok i (card (insert i (uploadedChunks u))) (totalChunks u),
            s\<lparr>uploads := (uploads s)(uploadId \<mapsto> u\<lparr>uploadedChunks := insert i (uploadedChunks u)\<rparr>),
              objects := (objects s)(js_chunkObjectName eng (objectName u) i \<mapsto> b)\<rparr>)
       \<and> ((\<forall>k\<in>insert i (uploadedChunks u). js_in_range k (totalChunks u))
            \<longleftrightarrow> js_in_range i (totalChunks u) \<and> (\<forall>k\<in>uploadedChunks u. js_in_range k (totalChunks u)))"
    by simp
next
  assume a: "uploads t uploadId = Some v" "uploadId \<noteq> []" "in_int64 j"
    "\<not> faults (Put (chunkObjectName (objectName v) j))"
  from go_uploadChunk_ok [where faults = faults and i = j and b = b, OF a]
  show "go_uploadChunk faults (chunk_req uploadId j b) t =
           (Chunk_ok j (card (insert j (uploadedChunks v))) (totalChunks v),
            t\<lparr>uploads := (uploads t)(uploadId \<mapsto> v\<lparr>uploadedChunks := insert j (uploadedChunks v)\<rparr>),
              objects := (objects t)(chunkObjectName (objectName v) j \<mapsto> b)\<rparr>)
       \<and> ((\<forall>k\<in>insert j (uploadedChunks v). 0 \<le> k \<and> k < totalChunks v)
            \<longleftrightarrow> (0 \<le> j \<and> j < totalChunks v) \<and> (\<forall>k\<in>uploadedChunks v. 0 \<le> k \<and> k < totalChunks v))"
    by simp
qed

theorem uploadChunk_accepts_any_index_witness:
  "js_uploadChunk ex_engine no_faults (chunk_req ''u1'' (Num 7) [8]) js_ex_state =
     (Chunk_ok (Num 7) 1 (Num 3),
      js_ex_state\<lparr>uploads := (uploads js_ex_state)(''u1'' \<mapsto> js_ex_session\<lparr>uploadedChunks := {Num 7}\<rparr>),
        objects := (objects js_ex_state)(''1_a.bin.part7'' \<mapsto> [8])\<rparr>)
   \<and> go_uploadChunk no_faults (chunk_req ''u1'' 7 [8]) go_ex_state =
     (Chunk_ok 7 1 3,
      go_ex_state\<lparr>uploads := (uploads go_ex_state)(''u1'' \<mapsto> go_ex_session\<lparr>uploadedChunks := {7}\<rparr>),
        objects := (objects go_ex_state)(''1_a.bin.part7'' \<mapsto> [8])\<rparr>)"
proof -
  have js: "uploads js_ex_state ''u1'' = Some js_ex_session \<and> ''u1'' \<noteq> []
      \<and> \<not> no_faults (Put (js_chunkObjectName ex_engine (objectName js_ex_session) (Num 7)))"
    by (simp add: js_ex_session_stored no_faults_def)
  have go: "uploads go_ex_state ''u1'' = Some go_ex_session \<and> ''u1'' \<noteq> [] \<and> in_int64 7
      \<and> \<not> no_faults (Put (chunkObjectName (objectName go_ex_session) 7))"
    by (simp add: go_ex_session_stored no_faults_def in_int64_def)
  note th = uploadChunk_accepts_any_index
    [where s = js_ex_state and uploadId = "''u1''" and u = js_ex_session and eng = ex_engine
      and faults = no_faults and i = "Num 7" and b = "[8]"
      and t = go_ex_state and v = go_ex_session and j = 7]
  from th [THEN conjunct1, THEN mp, OF js, THEN conjunct1]
    th [THEN conjunct2, THEN mp, OF go, THEN conjunct1]
  show ?thesis by (simp add: js_ex_session_def go_ex_session_def js_ex_part_names go_ex_part_names)
qed

theorem uploadChunk_out_of_range_counterexample:
  "\<not> js_in_range (Num 7) (totalChunks js_ex_session)
   \<and> uploads js_ex_state ''u1'' = Some js_ex_session
   \<and> fst (js_uploadChunk ex_engine no_faults (chunk_req ''u1'' (Num 7) [8]) js_ex_state) = Chunk_ok (Num 7) 1 (Num 3)
   \<and> objects js_ex_state ''1_a.bin.part7'' = None
   \<and> objects (snd (js_uploadChunk ex_engine no_faults (chunk_req ''u1'' (Num 7) [8]) js_ex_state)) ''1_a.bin.part7''
       = Some [8]
   \<and> uploads (snd (js_uploadChunk ex_engine no_faults (chunk_req ''u1'' (Num 7) [8]) js_ex_state)) ''u1''
       = Some (js_ex_session\<lparr>uploadedChunks := {Num 7}\<rparr>)
   \<and> \<not> (0 \<le> (7 :: int) \<and> 7 < totalChunks go_ex_session)
   \<and> uploads go_ex_state ''u1'' = Some go_ex_session
   \<and> fst (go_uploadChunk no_faults (chunk_req ''u1'' 7 [8]) go_ex_state) = Chunk_ok 7 1 3
   \<and> objects go_ex_state ''1_a.bin.part7'' = None
   \<and> objects (snd (go_uploadChunk no_faults (chunk_req ''u1'' 7 [8]) go_ex_state)) ''1_a.bin.part7''
       = Some [8]
   \<and> uploads (snd (go_uploadChunk no_faults (chunk_req ''u1'' 7 [8]) go_ex_state)) ''u1''
       = Some (go_ex_session\<lparr>uploadedChunks := {7}\<rparr>)"
  by (simp add: js_uploadChunk_def go_uploadChunk_def chunk_req_def put_object_def no_faults_def
      js_ex_state_def js_ex_session_def go_ex_state_def go_ex_session_def
      js_ex_part_names go_ex_part_names in_int64_def Let_def)




text \<open>
  C6. When complete has passed the completeness check and then fails while reading a
  part (any index of the merge that cannot be read) or writing the final object (the put
  of the merged bytes, or the store-side copy of the single part), the reply is the
  storage error (HTTP 500) and the state is exactly the one before the call: no final
  object written, no part deleted, the session still registered, so that complete can be
  retried. First server.js, then main.go.
\<close>

theorem complete_io_failure_aborts:
  "(uploads s uploadId = Some u \<and> uploadId \<noteq> []
      \<and> totalChunks u = Num n \<and> int (card (uploadedChunks u)) = n
      \<and> ((1 < n \<and>
           ((\<exists>i. 0 \<le> i \<and> i < n \<and>
                 isl (get_object faults (objects s) (js_chunkObjectName eng (objectName u) (Num i))))
            \<or> faults (Put (objectName u))))
         \<or> (n \<le> 1 \<and>
              isl (copy_object faults (objects s) (js_chunkObjectName eng (objectName u) (Num 0)) (objectName u))))
    \<longrightarrow> js_complete eng faults cfg uploadId s = (Server_error, s)
       \<and> http_status (fst (js_complete eng faults cfg uploadId s)) = 500)
   \<and> (uploads t uploadId = Some v \<and> uploadId \<noteq> []
      \<and> int (card (uploadedChunks v)) = totalChunks v
      \<and> ((1 < totalChunks v \<and>
           ((\<exists>i. 0 \<le> i \<and> i < totalChunks v \<and>
                 isl (get_object faults (objects t) (chunkObjectName (objectName v) i)))
            \<or> faults (Put (objectName v))))
         \<or> (totalChunks v \<le> 1 \<and>
              isl (copy_object faults (objects t) (chunkObjectName (objectName v) 0) (objectName v))))
    \<longrightarrow> go_complete faults cfg uploadId t = (Server_error, t)
       \<and> http_status (fst (go_complete faults cfg uploadId t)) = 500)"
proof (rule conjI; rule impI; elim conjE)
  assume a: "uploads s uploadId = Some u" "uploadId \<noteq> []"
    "totalChunks u = Num n" "int (card (uploadedChunks u)) = n"
  assume "(1 < n \<and>
           ((\<exists>i. 0 \<le> i \<and> i < n \<and>
                 isl (get_object faults (objects s) (js_chunkObjectName eng (objectName u) (Num i))))
            \<or> faults (Put (objectName u))))
         \<or> (n \<le> 1 \<and>
              isl (copy_object faults (objects s) (js_chunkObjectName eng (objectName u) (Num 0)) (objectName u)))"
  then have "js_complete eng faults cfg uploadId s = (Server_error, s)"
  proof
    assume "1 < n \<and>
           ((\<exists>i. 0 \<le> i \<and> i < n \<and>
                 isl (get_object faults (objects s) (js_chunkObjectName eng (objectName u) (Num i))))
            \<or> faults (Put (objectName u)))"
    then have "1 < n"
      and "(\<exists>i. 0 \<le> i \<and> i < n \<and>
                 isl (get_object faults (objects s) (js_chunkObjectName eng (objectName u) (Num i))))
            \<or> faults (Put (objectName u))" by blast+
    then show ?thesis by (rule js_complete_fails_multi [OF a])
  next
    assume "n \<le> 1 \<and>
      isl (copy_object faults (objects s) (js_chunkObjectName eng (objectName u) (Num 0)) (objectName u))"
    then have "n \<le> 1"
      and "isl (copy_object faults (objects s) (js_chunkObjectName eng (objectName u) (Num 0)) (objectName u))"
      by blast+
    then show ?thesis by (rule js_complete_fails_single [OF a])
  qed
  then show "js_complete eng faults cfg uploadId s = (Server_error, s)
       \<and> http_status (fst (js_complete eng faults cfg uploadId s)) = 500" by simp
next
  assume a: "uploads t uploadId = Some v" "uploadId \<noteq> []"
    "int (card (uploadedChunks v)) = totalChunks v"
  assume "(1 < totalChunks v \<and>
           ((\<exists>i. 0 \<le> i \<and> i < totalChunks v \<and>
                 isl (get_object faults (objects t) (chunkObjectName (objectName v) i)))
            \<or> faults (Put (objectName v))))
         \<or> (totalChunks v \<le> 1 \<and>
              isl (copy_object faults (objects t) (chunkObjectName (objectName v) 0) (objectName v)))"
  then have "go_complete faults cfg uploadId t = (Server_error, t)"
  proof
    assume "1 < totalChunks v \<and>
           ((\<exists>i. 0 \<le> i \<and> i < totalChunks v \<and>
                 isl (get_object faults (objects t) (chunkObjectName (objectName v) i)))
            \<or> faults (Put (objectName v)))"
    then have "1 < totalChunks v"
      and "(\<exists>i. 0 \<le> i \<and> i < totalChunks v \<and>
                 isl (get_object faults (objects t) (chunkObjectName (objectName v) i)))
            \<or> faults (Put (objectName v))" by blast+
    then show ?thesis by (rule go_complete_fails_multi [OF a])
  next
    assume "totalChunks v \<le> 1 \<and>
      isl (copy_object faults (objects t) (chunkObjectName (objectName v) 0) (objectName v))"
    then have "totalChunks v \<le> 1"
      and "isl (copy_object faults (objects t) (chunkObjectName (objectName v) 0) (objectName v))"
      by blast+
    then show ?thesis by (rule go_complete_fails_single [OF a])
  qed
  then show "go_complete faults cfg uploadId t = (Server_error, t)
       \<and> http_status (fst (go_complete faults cfg uploadId t)) = 500" by simp
qed

theorem complete_io_failure_aborts_witness:
  "js_complete ex_engine (\<lambda>opn. opn = Get ''1_a.bin.part1'') ex_cfg ''u1''
       (js_upload_all ex_engine ''u1'' js_ex_ups js_ex_state)
     = (Server_error, js_upload_all ex_engine ''u1'' js_ex_ups js_ex_state)
   \<and> go_complete (\<lambda>opn. opn = Get ''1_a.bin.part1'') ex_cfg ''u1'' (go_upload_all ''u1'' go_ex_ups go_ex_state)
     = (Server_error, go_upload_all ''u1'' go_ex_ups go_ex_state)"
proof -
  let ?s = "js_upload_all ex_engine ''u1'' js_ex_ups js_ex_state"
  let ?u = "js_ex_session\<lparr>uploadedChunks := {Num 0, Num 1, Num 2}\<rparr>"
  let ?t = "go_upload_all ''u1'' go_ex_ups go_ex_state"
  let ?v = "go_ex_session\<lparr>uploadedChunks := {0, 1, 2}\<rparr>"
  let ?f = "\<lambda>opn. opn = Get ''1_a.bin.part1''"
  have "isl (get_object ?f (objects ?s) (js_chunkObjectName ex_engine (objectName ?u) (Num 1)))"
    by (simp add: get_object_def js_ex_session_def js_ex_part_names)
  then have "\<exists>i. 0 \<le> i \<and> i < 3 \<and>
      isl (get_object ?f (objects ?s) (js_chunkObjectName ex_engine (objectName ?u) (Num i)))"
    by (intro exI [of _ 1]) simp
  then have js: "uploads ?s ''u1'' = Some ?u \<and> ''u1'' \<noteq> []
      \<and> totalChunks ?u = Num 3 \<and> int (card (uploadedChunks ?u)) = 3
      \<and> ((1 < (3 :: int) \<and>
           ((\<exists>i. 0 \<le> i \<and> i < 3 \<and>
                 isl (get_object ?f (objects ?s) (js_chunkObjectName ex_engine (objectName ?u) (Num i))))
            \<or> ?f (Put (objectName ?u))))
         \<or> ((3 :: int) \<le> 1 \<and>
              isl (copy_object ?f (objects ?s) (js_chunkObjectName ex_engine (objectName ?u) (Num 0)) (objectName ?u))))"
    by (simp add: js_ex_full_session) (simp add: js_ex_session_def)
  have "isl (get_object ?f (objects ?t) (chunkObjectName (objectName ?v) 1))"
    by (simp add: get_object_def go_ex_session_def go_ex_part_names)
  then have "\<exists>i. 0 \<le> i \<and> i < totalChunks ?v \<and>
      isl (get_object ?f (objects ?t) (chunkObjectName (objectName ?v) i))"
    by (intro exI [of _ 1]) (simp add: go_ex_session_def)
  then have go: "uploads ?t ''u1'' = Some ?v \<and> ''u1'' \<noteq> []
      \<and> int (card (uploadedChunks ?v)) = totalChunks ?v
      \<and> ((1 < totalChunks ?v \<and>
           ((\<exists>i. 0 \<le> i \<and> i < totalChunks ?v \<and>
                 isl (get_object ?f (objects ?t) (chunkObjectName (objectName ?v) i)))
            \<or> ?f (Put (objectName ?v))))
         \<or> (totalChunks ?v \<le> 1 \<and>
              isl (copy_object ?f (objects ?t) (chunkObjectName (objectName ?v) 0) (objectName ?v))))"
    by (simp add: go_ex_full_session) (simp add: go_ex_session_def)
  note th = complete_io_failure_aborts
    [where s = ?s and uploadId = "''u1''" and u = ?u and n = 3 and eng = ex_engine and faults = ?f
      and cfg = ex_cfg and t = ?t and v = ?v]
  from th [THEN conjunct1, THEN mp, OF js, THEN conjunct1]
    th [THEN conjunct2, THEN mp, OF go, THEN conjunct1]
  show ?thesis by (rule conjI)
qed




text \<open>
  C8, as amended. Every part key is \<open>objectName @ ''.part'' @ index\<close>, the index as the
  language prints it, and differs from its own \<open>objectName\<close>. Go prints every index in
  decimal, server.js the integers from 0 below \<open>2 ^ 53\<close> (others come out in forms such as
  \<^verbatim>\<open>NaN\<close> or \<^verbatim>\<open>1e+21\<close>); a part key of a non-negative index that is printed in decimal
  matches the pattern \<^verbatim>\<open>*.part<digits>\<close>. The object name that init derives from the clock
  and a file name whose text does not itself match the pattern does not match it either,
  and so equals no part key of such an index of any session. A file name that matches
  the pattern gives an object name that is a part key of another session. First
  server.js, then main.go.
\<close>

theorem part_keys_and_object_names:
  "js_chunkObjectName eng obj i = obj @ ''.part'' @ js_show eng i
   \<and> js_chunkObjectName eng obj i \<noteq> obj
   \<and> (0 \<le> k \<and> js_safe k
        \<longrightarrow> js_chunkObjectName eng obj (Num k) = obj @ ''.part'' @ show_int k
          \<and> matches_part_pattern (js_chunkObjectName eng obj (Num k)))
   \<and> (js_init eng env req s = (Init_ok uid name n, s')
        \<and> \<not> matches_part_pattern (js_template eng (req_fileName req))
        \<longrightarrow> \<not> matches_part_pattern name
          \<and> (0 \<le> k \<and> js_safe k \<longrightarrow> name \<noteq> js_chunkObjectName eng obj (Num k)))
   \<and> chunkObjectName obj j = obj @ ''.part'' @ show_int j
   \<and> chunkObjectName obj j \<noteq> obj
   \<and> (0 \<le> j \<longrightarrow> matches_part_pattern (chunkObjectName obj j))
   \<and> (go_init env (Some greq) t = (Init_ok uid gname m, t')
        \<and> \<not> matches_part_pattern (go_fileName greq)
        \<longrightarrow> \<not> matches_part_pattern gname \<and> (0 \<le> j \<longrightarrow> gname \<noteq> chunkObjectName obj j))"
proof -
  have js_shape: "js_chunkObjectName eng obj i = obj @ ''.part'' @ js_show eng i"
    by (simp add: js_chunkObjectName_def)
  have js_neq: "js_chunkObjectName eng obj i \<noteq> obj" by (rule js_chunkObjectName_neq_obj)
  have js_key: "0 \<le> k \<and> js_safe k
        \<longrightarrow> js_chunkObjectName eng obj (Num k) = obj @ ''.part'' @ show_int k
          \<and> matches_part_pattern (js_chunkObjectName eng obj (Num k))"
    by (simp add: js_chunkObjectName_safe matches_chunkObjectName) (simp add: chunkObjectName_def)
  have js: "js_init eng env req s = (Init_ok uid name n, s')
        \<and> \<not> matches_part_pattern (js_template eng (req_fileName req))
        \<longrightarrow> \<not> matches_part_pattern name
          \<and> (0 \<le> k \<and> js_safe k \<longrightarrow> name \<noteq> js_chunkObjectName eng obj (Num k))"
  proof
    assume a: "js_init eng env req s = (Init_ok uid name n, s')
        \<and> \<not> matches_part_pattern (js_template eng (req_fileName req))"
    then have nm: "\<not> matches_part_pattern (js_template eng (req_fileName req))" by simp
    from a have name: "name = js_show eng (Num (now env)) @ ''_'' @ js_template eng (req_fileName req)"
      by (simp add: js_init_def Let_def split: if_splits)
    have "\<not> matches_part_pattern name" unfolding name by (rule stamped_name(1) [OF nm])
    moreover have "name \<noteq> js_chunkObjectName eng obj (Num k)" if "0 \<le> k" "js_safe k"
      unfolding name js_chunkObjectName_safe [OF that(2)] by (rule stamped_name(2) [OF nm that(1)])
    ultimately show "\<not> matches_part_pattern name
          \<and> (0 \<le> k \<and> js_safe k \<longrightarrow> name \<noteq> js_chunkObjectName eng obj (Num k))"
      by blast
  qed
  have go_shape: "chunkObjectName obj j = obj @ ''.part'' @ show_int j"
    by (simp add: chunkObjectName_def)
  have go_neq: "chunkObjectName obj j \<noteq> obj" by (rule chunkObjectName_neq_obj)
  have go_key: "0 \<le> j \<longrightarrow> matches_part_pattern (chunkObjectName obj j)"
    by (simp add: matches_chunkObjectName)
  have go: "go_init env (Some greq) t = (Init_ok uid gname m, t')
        \<and> \<not> matches_part_pattern (go_fileName greq)
        \<longrightarrow> \<not> matches_part_pattern gname \<and> (0 \<le> j \<longrightarrow> gname \<noteq> chunkObjectName obj j)"
  proof
    assume a: "go_init env (Some greq) t = (Init_ok uid gname m, t')
        \<and> \<not> matches_part_pattern (go_fileName greq)"
    then have nm: "\<not> matches_part_pattern (go_fileName greq)" by simp
    from a have name: "gname = show_int (now env) @ ''_'' @ go_fileName greq"
      by (simp add: Let_def split: if_splits)
    have "\<not> matches_part_pattern gname" unfolding name by (rule stamped_name(1) [OF nm])
    moreover have "gname \<noteq> chunkObjectName obj j" if "0 \<le> j"
      unfolding name by (rule stamped_name(2) [OF nm that])
    ultimately show "\<not> matches_part_pattern gname \<and> (0 \<le> j \<longrightarrow> gname \<noteq> chunkObjectName obj j)"
      by blast
  qed
  show ?thesis
    using js_shape js_neq js_key js go_shape go_neq go_key go by (intro conjI) assumption+
qed

theorem part_keys_and_object_names_witness:
  "js_chunkObjectName ex_engine ''1_a.bin'' (Num 2) = ''1_a.bin.part2''
   \<and> matches_part_pattern (js_chunkObjectName ex_engine ''1_a.bin'' (Num 2))
   \<and> chunkObjectName ''1_a.bin'' 2 = ''1_a.bin.part2''
   \<and> matches_part_pattern (chunkObjectName ''1_a.bin'' 2)
   \<and> \<not> matches_part_pattern ''1_a.bin''
   \<and> ''1_a.bin'' \<noteq> js_chunkObjectName ex_engine ''1_a.bin'' (Num 2)
   \<and> ''1_a.bin'' \<noteq> chunkObjectName ''1_a.bin'' 2"
proof -
  have js: "js_init ex_engine ex_env
       \<lparr>req_fileName = JStr ''a.bin'', req_fileSize = JNum (Num 10), req_chunkSize = JNum (Num 4)\<rparr>
       js_empty_state = (Init_ok ''u1'' ''1_a.bin'' (Num 3), js_ex_state)
     \<and> \<not> matches_part_pattern (js_template ex_engine
           (req_fileName \<lparr>req_fileName = JStr ''a.bin'', req_fileSize = JNum (Num 10), req_chunkSize = JNum (Num 4)\<rparr>))"
    by (simp add: js_init_example) (simp add: js_template_def matches_part_pattern_def is_digit_def)
  have go: "go_init ex_env (Some \<lparr>go_fileName = ''a.bin'', go_fileSize = 10, go_chunkSize = 4\<rparr>) go_empty_state
       = (Init_ok ''u1'' ''1_a.bin'' 3, go_ex_state)
     \<and> \<not> matches_part_pattern (go_fileName \<lparr>go_fileName = ''a.bin'', go_fileSize = 10, go_chunkSize = 4\<rparr>)"
    by (simp only: go_init_example) (simp add: matches_part_pattern_def is_digit_def)
  have k: "0 \<le> (2 :: int) \<and> js_safe 2" by (simp add: js_safe_def)
  note th = part_keys_and_object_names [where obj = "''1_a.bin''" and k = 2 and j = 2
      and eng = ex_engine and env = ex_env
      and req = "\<lparr>req_fileName = JStr ''a.bin'', req_fileSize = JNum (Num 10), req_chunkSize = JNum (Num 4)\<rparr>"
      and s = js_empty_state and uid = "''u1''" and name = "''1_a.bin''" and n = "Num 3" and s' = js_ex_state
      and greq = "\<lparr>go_fileName = ''a.bin'', go_fileSize = 10, go_chunkSize = 4\<rparr>"
      and t = go_empty_state and gname = "''1_a.bin''" and m = 3 and t' = go_ex_state]
  from th [THEN conjunct2, THEN conjunct2, THEN conjunct1, THEN mp, OF k]
  have a: "matches_part_pattern (js_chunkObjectName ex_engine ''1_a.bin'' (Num 2))" by (rule conjunct2)
  from th [THEN conjunct2, THEN conjunct2, THEN conjunct2, THEN conjunct1, THEN mp, OF js]
  have b: "\<not> matches_part_pattern ''1_a.bin''"
    and c: "''1_a.bin'' \<noteq> js_chunkObjectName ex_engine ''1_a.bin'' (Num 2)"
    using k by blast+
  from th [THEN conjunct2, THEN conjunct2, THEN conjunct2, THEN conjunct2, THEN conjunct2,
      THEN conjunct2, THEN conjunct1]
  have d: "matches_part_pattern (chunkObjectName ''1_a.bin'' 2)" by simp
  from th [THEN conjunct2, THEN conjunct2, THEN conjunct2, THEN conjunct2, THEN conjunct2,
      THEN conjunct2, THEN conjunct2, THEN mp, OF go]
  have e: "''1_a.bin'' \<noteq> chunkObjectName ''1_a.bin'' 2" by simp
  from a b c d e show ?thesis by (simp add: js_ex_part_names go_ex_part_names)
qed

theorem object_name_is_part_key_counterexample:
  "uploads js_ex_state ''u1'' = Some js_ex_session
   \<and> fst (js_init ex_engine ex_env2
       \<lparr>req_fileName = JStr ''a.bin.part0'', req_fileSize = JNum (Num 10), req_chunkSize = JNum (Num 4)\<rparr>
       js_ex_state)
     = Init_ok ''u2'' ''1_a.bin.part0'' (Num 3)
   \<and> uploads (snd (js_init ex_engine ex_env2
       \<lparr>req_fileName = JStr ''a.bin.part0'', req_fileSize = JNum (Num 10), req_chunkSize = JNum (Num 4)\<rparr>
       js_ex_state)) ''u1''
     = Some js_ex_session
   \<and> ''1_a.bin.part0'' = js_chunkObjectName ex_engine (objectName js_ex_session) (Num 0)
   \<and> uploads go_ex_state ''u1'' = Some go_ex_session
   \<and> fst (go_init ex_env2 (Some \<lparr>go_fileName = ''a.bin.part0'', go_fileSize = 10, go_chunkSize = 4\<rparr>) go_ex_state)
     = Init_ok ''u2'' ''1_a.bin.part0'' 3
   \<and> uploads (snd (go_init ex_env2 (Some \<lparr>go_fileName = ''a.bin.part0'', go_fileSize = 10, go_chunkSize = 4\<rparr>)
       go_ex_state)) ''u1''
     = Some go_ex_session
   \<and> ''1_a.bin.part0'' = chunkObjectName (objectName go_ex_session) 0
   \<and> matches_part_pattern ''1_a.bin.part0''"
  by (simp add: js_init_def ex_env2_def js_ex_state_def js_ex_session_def go_ex_state_def go_ex_session_def
      Let_def js_ceil_quot_def js_to_number_def js_parseInt_def js_template_def js_show_def js_safe_def
      js_chunkObjectName_def go_totalChunks_def go_quot_def show_int_def show_nat.simps digit_char_def
      matches_part_pattern_def is_digit_def chunkObjectName_def)

text \<open>
  C9. Re-uploading a chunk index is idempotent: any history of uploads to a session
  leaves the same state as the history that uploads every index exactly once with its
  last bytes; in particular \<open>n + 1\<close> uploads of the same chunk leave the state of one, and
  complete then does the same on both. First server.js, then main.go.
\<close>

theorem reupload_is_idempotent:
  "js_upload_all eng uploadId ups s = js_upload_all eng uploadId (keep_last ups) s
   \<and> distinct (map fst (keep_last ups))
   \<and> fst ` set (keep_last ups) = fst ` set ups
   \<and> js_upload_all eng uploadId (replicate (Suc n) (i, b)) s = js_upload_all eng uploadId [(i, b)] s
   \<and> js_complete eng faults cfg uploadId (js_upload_all eng uploadId (replicate (Suc n) (i, b)) s)
       = js_complete eng faults cfg uploadId (js_upload_all eng uploadId [(i, b)] s)
   \<and> go_upload_all uploadId gups t = go_upload_all uploadId (keep_last gups) t
   \<and> distinct (map fst (keep_last gups))
   \<and> fst ` set (keep_last gups) = fst ` set gups
   \<and> go_upload_all uploadId (replicate (Suc n) (j, b)) t = go_upload_all uploadId [(j, b)] t
   \<and> go_complete faults cfg uploadId (go_upload_all uploadId (replicate (Suc n) (j, b)) t)
       = go_complete faults cfg uploadId (go_upload_all uploadId [(j, b)] t)"
proof -
  have js: "js_upload_all eng uploadId (replicate (Suc n) (i, b)) s = js_upload_all eng uploadId [(i, b)] s"
    using js_upload_all_keep_last [where eng = eng and uploadId = uploadId
        and ups = "replicate (Suc n) (i, b)" and s = s]
    by (simp only: keep_last_replicate)
  have go: "go_upload_all uploadId (replicate (Suc n) (j, b)) t = go_upload_all uploadId [(j, b)] t"
    using go_upload_all_keep_last [where uploadId = uploadId and ups = "replicate (Suc n) (j, b)" and s = t]
    by (simp only: keep_last_replicate)
  show ?thesis
    by (simp only: js go js_upload_all_keep_last go_upload_all_keep_last
        distinct_keep_last fst_set_keep_last simp_thms)
qed

theorem reupload_is_idempotent_witness:
  "js_upload_all ex_engine ''u1'' [(Num 0, [1, 2]), (Num 0, [1, 2]), (Num 0, [1, 2])] js_ex_state
     = js_upload_all ex_engine ''u1'' [(Num 0, [1, 2])] js_ex_state
   \<and> go_upload_all ''u1'' [(0, [1, 2]), (0, [1, 2]), (0, [1, 2])] go_ex_state
     = go_upload_all ''u1'' [(0, [1, 2])] go_ex_state
   \<and> go_upload_all ''u1'' go_ex_ups go_ex_state
     = go_upload_all ''u1'' [(2, [5]), (1, [3, 4]), (0, [1, 2])] go_ex_state"
proof -
  have r: "replicate (Suc 2) (Num 0, [1, 2 :: 8 word]) = [(Num 0, [1, 2]), (Num 0, [1, 2]), (Num 0, [1, 2])]"
    "replicate (Suc 2) (0 :: int, [1, 2 :: 8 word]) = [(0, [1, 2]), (0, [1, 2]), (0, [1, 2])]"
    by (simp_all add: numeral_2_eq_2)
  have k: "keep_last go_ex_ups = [(2, [5]), (1, [3, 4]), (0, [1, 2])]"
    by (simp add: go_ex_ups_def)
  from reupload_is_idempotent [where eng = ex_engine and uploadId = "''u1''" and ups = js_ex_ups
      and s = js_ex_state and gups = go_ex_ups and t = go_ex_state
      and n = 2 and i = "Num 0" and j = 0 and b = "[1, 2]" and faults = no_faults and cfg = ex_cfg]
  show ?thesis by (simp only: r k)
qed

text \<open>
  C10. A cancel that returns has touched nothing but the part keys of the indices
  \<open>0 .. totalChunks - 1\<close> of the cancelled session and that session's registry entry: every
  other key of the bucket keeps its content, in particular a part stored under an index
  outside the range, and every other session stays as it is. First server.js (the index
  outside the range one that the model prints itself), then main.go, whose cancel always
  returns.
\<close>

theorem cancel_frame:
  "(uploads s uploadId = Some u \<and> js_cancel eng faults uploadId s = Some (r, s')
    \<longrightarrow> (k \<notin> (\<lambda>i. js_chunkObjectName eng (objectName u) (Num i)) ` {i. 0 \<le> i \<and> js_less i (totalChunks u)}
            \<longrightarrow> objects s' k = objects s k)
       \<and> (js_plain j \<and> \<not> js_in_range j (totalChunks u)
            \<longrightarrow> objects s' (js_chunkObjectName eng (objectName u) j)
                 = objects s (js_chunkObjectName eng (objectName u) j))
       \<and> (other \<noteq> uploadId \<longrightarrow> uploads s' other = uploads s other))
   \<and> (uploads t uploadId = Some v
    \<longrightarrow> (k \<notin> chunkObjectName (objectName v) ` {0 ..< totalChunks v}
            \<longrightarrow> objects (snd (go_cancel faults uploadId t)) k = objects t k)
       \<and> (gj < 0 \<or> totalChunks v \<le> gj
            \<longrightarrow> objects (snd (go_cancel faults uploadId t)) (chunkObjectName (objectName v) gj)
                 = objects t (chunkObjectName (objectName v) gj))
       \<and> (other \<noteq> uploadId
            \<longrightarrow> uploads (snd (go_cancel faults uploadId t)) other = uploads t other))"
proof (rule conjI; rule impI)
  assume "uploads s uploadId = Some u \<and> js_cancel eng faults uploadId s = Some (r, s')"
  then have a: "uploads s uploadId = Some u" and ret: "js_cancel eng faults uploadId s = Some (r, s')"
    by blast+
  from js_cancel_Some_ends [OF a ret] have ends: "js_loop_ends (totalChunks u)" .
  from js_cancel_returns [OF a ends, where eng = eng and faults = faults] ret
  have s': "s' = \<lparr>uploads = (uploads s)(uploadId := None),
       objects = remove_all faults (objects s) (js_visited eng (objectName u) (totalChunks u))\<rparr>"
    by simp
  have f1: "k \<notin> (\<lambda>i. js_chunkObjectName eng (objectName u) (Num i)) ` {i. 0 \<le> i \<and> js_less i (totalChunks u)}
            \<longrightarrow> objects s' k = objects s k"
    by (simp add: s' remove_all_apply js_visited_set [OF ends])
  have f2: "js_plain j \<and> \<not> js_in_range j (totalChunks u)
            \<longrightarrow> objects s' (js_chunkObjectName eng (objectName u) j)
                 = objects s (js_chunkObjectName eng (objectName u) j)"
    using js_unvisited_key [OF ends, where j = j and eng = eng and obj = "objectName u"]
    by (auto simp: s' remove_all_apply)
  have f3: "other \<noteq> uploadId \<longrightarrow> uploads s' other = uploads s other"
    by (simp add: s')
  from f1 f2 f3
  show "(k \<notin> (\<lambda>i. js_chunkObjectName eng (objectName u) (Num i)) ` {i. 0 \<le> i \<and> js_less i (totalChunks u)}
            \<longrightarrow> objects s' k = objects s k)
       \<and> (js_plain j \<and> \<not> js_in_range j (totalChunks u)
            \<longrightarrow> objects s' (js_chunkObjectName eng (objectName u) j)
                 = objects s (js_chunkObjectName eng (objectName u) j))
       \<and> (other \<noteq> uploadId \<longrightarrow> uploads s' other = uploads s other)"
    by (intro conjI)
next
  assume a: "uploads t uploadId = Some v"
  have g1: "k \<notin> chunkObjectName (objectName v) ` {0 ..< totalChunks v}
            \<longrightarrow> objects (snd (go_cancel faults uploadId t)) k = objects t k"
    by (simp add: go_cancel_objects [OF a])
  have "chunkObjectName (objectName v) gj \<notin> chunkObjectName (objectName v) ` {0 ..< totalChunks v}"
    if "gj < 0 \<or> totalChunks v \<le> gj"
  proof
    assume "chunkObjectName (objectName v) gj \<in> chunkObjectName (objectName v) ` {0 ..< totalChunks v}"
    then obtain i where "i \<in> {0 ..< totalChunks v}"
      and "chunkObjectName (objectName v) gj = chunkObjectName (objectName v) i" by blast
    then have "gj \<in> {0 ..< totalChunks v}" using chunkObjectName_inj by blast
    with that show False by simp
  qed
  then have g2: "gj < 0 \<or> totalChunks v \<le> gj
            \<longrightarrow> objects (snd (go_cancel faults uploadId t)) (chunkObjectName (objectName v) gj)
                 = objects t (chunkObjectName (objectName v) gj)"
    by (simp add: go_cancel_objects [OF a])
  have g3: "other \<noteq> uploadId
            \<longrightarrow> uploads (snd (go_cancel faults uploadId t)) other = uploads t other"
    by (simp add: go_cancel_uploads [OF a])
  from g1 g2 g3
  show "(k \<notin> chunkObjectName (objectName v) ` {0 ..< totalChunks v}
            \<longrightarrow> objects (snd (go_cancel faults uploadId t)) k = objects t k)
       \<and> (gj < 0 \<or> totalChunks v \<le> gj
            \<longrightarrow> objects (snd (go_cancel faults uploadId t)) (chunkObjectName (objectName v) gj)
                 = objects t (chunkObjectName (objectName v) gj))
       \<and> (other \<noteq> uploadId
            \<longrightarrow> uploads (snd (go_cancel faults uploadId t)) other = uploads t other)"
    by (intro conjI)
qed

theorem cancel_frame_witness:
  "map_option (\<lambda>r. objects (snd r) ''1_a.bin.part7'')
       (js_cancel ex_engine no_faults ''u1'' (js_upload_all ex_engine ''u1'' js_ex_stray_ups js_ex_state))
     = Some (Some [8])
   \<and> objects (snd (go_cancel no_faults ''u1'' (go_upload_all ''u1'' go_ex_stray_ups go_ex_state))) ''1_a.bin.part7''
     = Some [8]"
proof -
  let ?s = "js_upload_all ex_engine ''u1'' js_ex_stray_ups js_ex_state"
  let ?u = "js_ex_session\<lparr>uploadedChunks := {Num 0, Num 7}\<rparr>"
  let ?s' = "\<lparr>uploads = (uploads ?s)(''u1'' := None),
       objects = remove_all no_faults (objects ?s) (js_visited ex_engine (objectName ?u) (totalChunks ?u))\<rparr>"
  let ?t = "go_upload_all ''u1'' go_ex_stray_ups go_ex_state"
  let ?v = "go_ex_session\<lparr>uploadedChunks := {0, 7}\<rparr>"
  have ends: "js_loop_ends (totalChunks ?u)" by (simp add: js_ex_session_def)
  have ret: "js_cancel ex_engine no_faults ''u1'' ?s = Some (Cancel_ok, ?s')"
    by (rule js_cancel_returns [OF js_ex_orphan_state(1) ends])
  have js: "uploads ?s ''u1'' = Some ?u \<and> js_cancel ex_engine no_faults ''u1'' ?s = Some (Cancel_ok, ?s')"
    using ret by (simp add: js_ex_orphan_state(1))
  have out: "js_plain (Num 7) \<and> \<not> js_in_range (Num 7) (totalChunks ?u)"
    by (simp add: js_safe_def js_ex_session_def)
  note th = cancel_frame [where s = ?s and uploadId = "''u1''" and u = ?u and eng = ex_engine
      and faults = no_faults and r = Cancel_ok and s' = ?s' and j = "Num 7"
      and t = ?t and v = ?v and gj = 7]
  from th [THEN conjunct1, THEN mp, OF js, THEN conjunct2, THEN conjunct1, THEN mp, OF out]
  have a: "objects ?s' ''1_a.bin.part7'' = Some [8]"
    by (simp add: js_ex_session_def js_ex_part_names js_ex_orphan_state(2))
  from th [THEN conjunct2, THEN mp, OF go_ex_orphan_state(1), THEN conjunct2, THEN conjunct1]
  have b: "objects (snd (go_cancel no_faults ''u1'' ?t)) ''1_a.bin.part7'' = Some [8]"
    by (simp add: go_ex_session_def go_ex_part_names go_ex_orphan_state(2))
  from a b show ?thesis by (simp add: ret)
qed

end
